theory Spec2Isabelle
  imports
    Complex_Main
    "HOL-Library.Multiset"
    "HOL-Library.Char_ord"
    "HOL-Library.List_Lexorder"
    "HOL-Library.Product_Lexorder"
begin

section \<open>CineMatch: the recommendation logic of \<^verbatim>\<open>src/app.py\<close>\<close>

text \<open>
  The script loads a catalogue (\<^verbatim>\<open>movies_data\<close>, a pandas data frame) and a square
  similarity matrix (\<^verbatim>\<open>similarity\<close>), resolves the typed title with
  \<^verbatim>\<open>difflib.get_close_matches\<close>, reads the matching matrix row, sorts it and shows the
  entries at ranks \<open>1 .. num_recommendations\<close>. Exceptions are values of type \<open>error\<close>;
  a computation that may raise returns \<open>error + 'a\<close>.
\<close>

subsection \<open>Python building blocks\<close>

datatype error =
  IndexError | OverflowError | ValueError | KeyError | TypeError | AttributeError
  | RequestException | HTTPError | JSONDecodeError

text \<open>
  \<^verbatim>\<open>xs[i]\<close> on the first axis of a numpy array: a negative index counts from the end.
  An index outside \<open>[-len, len)\<close> raises \<^verbatim>\<open>IndexError\<close> when it fits the signed 64-bit
  index type, and \<^verbatim>\<open>OverflowError\<close> when it does not (a value from \<open>2^63\<close> on, as an
  unsigned 64-bit \<^verbatim>\<open>index\<close> column can hold). An array has fewer than \<open>2^63\<close> rows, so an
  index that is in range always fits.
\<close>

definition getitem :: "'a list \<Rightarrow> int \<Rightarrow> error + 'a" where
  "getitem xs i =
     (let n = int (length xs); j = (if i < 0 then i + n else i)
      in if 0 \<le> j \<and> j < n then Inr (xs ! nat j)
         else if i < - (2 ^ 63) \<or> 2 ^ 63 \<le> i then Inl OverflowError
         else Inl IndexError)"

text \<open>\<^verbatim>\<open>xs[lo:hi]\<close>: both bounds are clamped into \<open>0 .. len(xs)\<close>; never raises.\<close>

definition slice_bound :: "nat \<Rightarrow> int \<Rightarrow> nat" where
  "slice_bound len k = (if k < 0 then nat (max 0 (k + int len)) else min (nat k) len)"

definition py_slice :: "'a list \<Rightarrow> int \<Rightarrow> int \<Rightarrow> 'a list" where
  "py_slice xs lo hi = drop (slice_bound (length xs) lo) (take (slice_bound (length xs) hi) xs)"

text \<open>\<^verbatim>\<open>enumerate(xs, start)\<close>.\<close>

fun enumerate_from :: "int \<Rightarrow> 'a list \<Rightarrow> (int \<times> 'a) list" where
  "enumerate_from k [] = []"
| "enumerate_from k (x # xs) = (k, x) # enumerate_from (k + 1) xs"

text \<open>
  \<^verbatim>\<open>sorted(xs, key=key, reverse=True)\<close>. CPython keeps the sort stable under
  \<^verbatim>\<open>reverse=True\<close> by reversing the list, sorting it stably in ascending order and
  reversing the result; \<open>sort_key\<close> is a stable ascending sort. Scores are compared only,
  so they are any linear order (a NaN score is outside the model).
\<close>

definition sorted_reverse :: "('a \<Rightarrow> 'k::linorder) \<Rightarrow> 'a list \<Rightarrow> 'a list" where
  "sorted_reverse key xs = rev (sort_key key (rev xs))"

subsection \<open>The catalogue\<close>

text \<open>
  One row of \<^verbatim>\<open>movies_data\<close>: \<open>label\<close> is the row label of the data frame
  (\<^verbatim>\<open>movies_data.index\<close>), \<open>index\<close> the column \<^verbatim>\<open>movies_data['index']\<close>.
\<close>

record movie =
  label :: int
  index :: int
  title :: string
  genres :: string
  director :: string

text \<open>\<^verbatim>\<open>arr.values[0]\<close>: the first element, \<^verbatim>\<open>IndexError\<close> on an empty selection.\<close>

definition values0 :: "'a list \<Rightarrow> error + 'a" where
  "values0 xs = (case xs of [] \<Rightarrow> Inl IndexError | x # _ \<Rightarrow> Inr x)"

text \<open>Line 317: \<^verbatim>\<open>movies_data[movies_data.title == close_match]['index'].values[0]\<close>.\<close>

definition index_of_the_movie :: "movie list \<Rightarrow> string \<Rightarrow> error + int" where
  "index_of_the_movie movies_data close_match =
     values0 (map index (filter (\<lambda>m. title m = close_match) movies_data))"

text \<open>Line 335: \<^verbatim>\<open>movies_data[movies_data.index == index]['title'].values[0]\<close>.\<close>

definition title_of :: "movie list \<Rightarrow> int \<Rightarrow> error + string" where
  "title_of movies_data i = values0 (map title (filter (\<lambda>m. label m = i) movies_data))"

text \<open>Line 339: \<^verbatim>\<open>movies_data[movies_data.index == index].iloc[0]\<close>.\<close>

definition movie_info :: "movie list \<Rightarrow> int \<Rightarrow> error + movie" where
  "movie_info movies_data i = values0 (filter (\<lambda>m. label m = i) movies_data)"

subsection \<open>Ranking\<close>

text \<open>
  \<^verbatim>\<open>similarity\<close> is a two-dimensional array, modelled as the list of its rows;
  \<^verbatim>\<open>similarity[i]\<close> is row \<open>i\<close>, with Python's rule for negative indices.
  Lines 318, 319 and 329:
  \<^verbatim>\<open>similarity_score = list(enumerate(similarity[index_of_the_movie]))\<close>,
  \<^verbatim>\<open>sorted_similar_movies = sorted(similarity_score, key=lambda x: x[1], reverse=True)\<close>,
  \<^verbatim>\<open>sorted_similar_movies[1:num_recommendations+1]\<close>.
  \<open>recommend\<close> is these three steps in a row, from the index of the matched movie and the
  number of results chosen to the ranked pairs that the loop of line 329 displays.
\<close>

definition similarity_score :: "'s list list \<Rightarrow> int \<Rightarrow> error + (int \<times> 's) list" where
  "similarity_score similarity i =
     (case getitem similarity i of Inl e \<Rightarrow> Inl e | Inr row \<Rightarrow> Inr (enumerate_from 0 row))"

definition sorted_similar_movies :: "(int \<times> 's::linorder) list \<Rightarrow> (int \<times> 's) list" where
  "sorted_similar_movies scores = sorted_reverse snd scores"

definition recommend :: "'s::linorder list list \<Rightarrow> int \<Rightarrow> int \<Rightarrow> error + (int \<times> 's) list" where
  "recommend similarity i num_recommendations =
     (case similarity_score similarity i of
        Inl e \<Rightarrow> Inl e
      | Inr scores \<Rightarrow> Inr (py_slice (sorted_similar_movies scores) 1 (num_recommendations + 1)))"

text \<open>The load-time invariant of the data model: the matrix is square.\<close>

definition square :: "'s list list \<Rightarrow> bool" where
  "square similarity = list_all (\<lambda>row. length row = length similarity) similarity"

text \<open>The catalogue has one row per matrix row, labelled \<open>0, 1, ..\<close> in load order.\<close>

definition aligned :: "movie list \<Rightarrow> 's list list \<Rightarrow> bool" where
  "aligned movies_data similarity =
     (map label movies_data = map int [0..<length similarity])"

subsection \<open>The external provider (TMDB)\<close>

text \<open>
  \<^verbatim>\<open>get_movie_poster\<close> and \<^verbatim>\<open>get_movie_details\<close> (lines 145 to 213) call the provider
  inside \<^verbatim>\<open>try: ... except Exception\<close>. What \<^verbatim>\<open>requests.get\<close> yields is a \<open>reply\<close>: no
  answer at all (connection error, timeout), or a status code with a body that either is
  JSON or is not. A decoded body is a \<open>json\<close> value.
\<close>

datatype json =
  JNull | JBool bool | JNum rat | JStr string | JArr "json list" | JObj "(string \<times> json) list"

datatype reply = NoReply | Reply nat "json option"

text \<open>\<^verbatim>\<open>response.raise_for_status()\<close> followed by \<^verbatim>\<open>response.json()\<close>.\<close>

definition response_json :: "reply \<Rightarrow> error + json" where
  "response_json r =
     (case r of
        NoReply \<Rightarrow> Inl RequestException
      | Reply status body \<Rightarrow>
          if 400 \<le> status \<and> status < 600 then Inl HTTPError
          else (case body of None \<Rightarrow> Inl JSONDecodeError | Some j \<Rightarrow> Inr j))"

text \<open>Python truth value of a decoded JSON value.\<close>

fun truthy :: "json \<Rightarrow> bool" where
  "truthy JNull = False"
| "truthy (JBool b) = b"
| "truthy (JNum x) = (x \<noteq> 0)"
| "truthy (JStr s) = (s \<noteq> [])"
| "truthy (JArr xs) = (xs \<noteq> [])"
| "truthy (JObj kvs) = (kvs \<noteq> [])"

text \<open>\<^verbatim>\<open>data['results']\<close>: only a dict has string keys.\<close>

fun subscript_key :: "json \<Rightarrow> string \<Rightarrow> error + json" where
  "subscript_key (JObj kvs) k = (case map_of kvs k of None \<Rightarrow> Inl KeyError | Some v \<Rightarrow> Inr v)"
| "subscript_key _ k = Inl TypeError"

text \<open>\<^verbatim>\<open>x[0]\<close>: the first element of a list or string; a dict has no key \<open>0\<close>.\<close>

fun subscript0 :: "json \<Rightarrow> error + json" where
  "subscript0 (JArr (x # xs)) = Inr x"
| "subscript0 (JArr []) = Inl IndexError"
| "subscript0 (JStr (c # cs)) = Inr (JStr [c])"
| "subscript0 (JStr []) = Inl IndexError"
| "subscript0 (JObj kvs) = Inl KeyError"
| "subscript0 _ = Inl TypeError"

text \<open>\<^verbatim>\<open>movie.get(key, default)\<close>: a method of dicts only.\<close>

fun get_method :: "json \<Rightarrow> string \<Rightarrow> json \<Rightarrow> error + json" where
  "get_method (JObj kvs) k d = Inr (case map_of kvs k of None \<Rightarrow> d | Some v \<Rightarrow> v)"
| "get_method _ k d = Inl AttributeError"

text \<open>
  The f-string \<^verbatim>\<open>f"{TMDB_IMAGE_BASE_URL}{poster_path}"\<close>: a string is inserted as it
  is; how Python prints any other value is the parameter \<open>fmt\<close>.
\<close>

definition format_value :: "(json \<Rightarrow> string) \<Rightarrow> json \<Rightarrow> string" where
  "format_value fmt v = (case v of JStr s \<Rightarrow> s | _ \<Rightarrow> fmt v)"

definition TMDB_BASE_URL :: string where
  "TMDB_BASE_URL = ''https://api.themoviedb.org/3''"

definition TMDB_IMAGE_BASE_URL :: string where
  "TMDB_IMAGE_BASE_URL = ''https://image.tmdb.org/t/p/w500''"

definition no_api_key_url :: string where
  "no_api_key_url = ''https://via.placeholder.com/300x450?text=No+API+Key''"

definition no_poster_url :: string where
  "no_poster_url = ''https://via.placeholder.com/300x450?text=No+Poster+Available''"

definition error_loading_url :: string where
  "error_loading_url = ''https://via.placeholder.com/300x450?text=Error+Loading''"

text \<open>The provider: \<^verbatim>\<open>requests.get(url, params=params, timeout=5)\<close>.\<close>

type_synonym requests_get = "string \<Rightarrow> (string \<times> string option) list \<Rightarrow> reply"

text \<open>The body of the \<^verbatim>\<open>try\<close> block of \<^verbatim>\<open>get_movie_poster\<close> (lines 158 to 175).\<close>

definition poster_try :: "(json \<Rightarrow> string) \<Rightarrow> reply \<Rightarrow> error + string" where
  "poster_try fmt r =
     (case response_json r of
        Inl e \<Rightarrow> Inl e
      | Inr data \<Rightarrow>
          (case subscript_key data ''results'' of
             Inl e \<Rightarrow> Inl e
           | Inr results \<Rightarrow>
               if truthy results then
                 (case subscript0 results of
                    Inl e \<Rightarrow> Inl e
                  | Inr first \<Rightarrow>
                      (case get_method first ''poster_path'' JNull of
                         Inl e \<Rightarrow> Inl e
                       | Inr poster_path \<Rightarrow>
                           if truthy poster_path
                           then Inr (TMDB_IMAGE_BASE_URL @ format_value fmt poster_path)
                           else Inr no_poster_url))
               else Inr no_poster_url))"

text \<open>Lines 159 to 166: the search request of \<^verbatim>\<open>get_movie_poster\<close> and its reply.\<close>

definition poster_reply :: "requests_get \<Rightarrow> string \<Rightarrow> string \<Rightarrow> string option \<Rightarrow> reply" where
  "poster_reply requests_get api_key movie_title year =
     requests_get (TMDB_BASE_URL @ ''/search/movie'')
       [(''api_key'', Some api_key), (''query'', Some movie_title), (''year'', year)]"

definition get_movie_poster ::
  "(json \<Rightarrow> string) \<Rightarrow> requests_get \<Rightarrow> string \<Rightarrow> string \<Rightarrow> string option \<Rightarrow> string" where
  "get_movie_poster fmt requests_get api_key movie_title year =
     (if api_key = [] then no_api_key_url
      else
        (case poster_try fmt (poster_reply requests_get api_key movie_title year) of
           Inl e \<Rightarrow> error_loading_url
         | Inr url \<Rightarrow> url))"

record details =
  rating :: json
  overview :: json
  release_date :: json
  popularity :: json

text \<open>The body of the \<^verbatim>\<open>try\<close> block of \<^verbatim>\<open>get_movie_details\<close> (lines 191 to 210).\<close>

definition details_try :: "reply \<Rightarrow> error + details option" where
  "details_try r =
     (case response_json r of
        Inl e \<Rightarrow> Inl e
      | Inr data \<Rightarrow>
          (case subscript_key data ''results'' of
             Inl e \<Rightarrow> Inl e
           | Inr results \<Rightarrow>
               if truthy results then
                 (case subscript0 results of
                    Inl e \<Rightarrow> Inl e
                  | Inr mv \<Rightarrow>
                      (case get_method mv ''vote_average'' (JStr ''N/A'') of
                         Inl e \<Rightarrow> Inl e
                       | Inr ra \<Rightarrow>
                      (case get_method mv ''overview'' (JStr ''No overview available'') of
                         Inl e \<Rightarrow> Inl e
                       | Inr ov \<Rightarrow>
                      (case get_method mv ''release_date'' (JStr ''Unknown'') of
                         Inl e \<Rightarrow> Inl e
                       | Inr rd \<Rightarrow>
                      (case get_method mv ''popularity'' (JNum 0) of
                         Inl e \<Rightarrow> Inl e
                       | Inr po \<Rightarrow>
                           Inr (Some \<lparr>rating = ra, overview = ov,
                                      release_date = rd, popularity = po\<rparr>))))))
               else Inr None))"

text \<open>Lines 191 to 197: the search request of \<^verbatim>\<open>get_movie_details\<close> and its reply.\<close>

definition details_reply :: "requests_get \<Rightarrow> string \<Rightarrow> string \<Rightarrow> reply" where
  "details_reply requests_get api_key movie_title =
     requests_get (TMDB_BASE_URL @ ''/search/movie'')
       [(''api_key'', Some api_key), (''query'', Some movie_title)]"

definition get_movie_details :: "requests_get \<Rightarrow> string \<Rightarrow> string \<Rightarrow> details option" where
  "get_movie_details requests_get api_key movie_title =
     (if api_key = [] then None
      else
        (case details_try (details_reply requests_get api_key movie_title) of
           Inl e \<Rightarrow> None
         | Inr d \<Rightarrow> d))"

text \<open>
  Lines 387 to 390 show the details in the card, outside any \<^verbatim>\<open>try\<close>:
  \<^verbatim>\<open>if extra_details:\<close> then
  \<^verbatim>\<open>st.write(f"**Release Date:** {extra_details['release_date']}")\<close> and
  \<^verbatim>\<open>st.write(f"**Overview:** {extra_details['overview'][:200]}...")\<close>.
  The slice \<^verbatim>\<open>[:200]\<close> is defined on strings and lists; on \<^verbatim>\<open>None\<close>, a number or a
  boolean it raises \<^verbatim>\<open>TypeError\<close>, and so it does on a dict in Python 3.11, the version
  followed here. \<open>more_info\<close> is the list of lines written, or the
  exception that ends the run of the script.
\<close>

fun slice200 :: "json \<Rightarrow> error + json" where
  "slice200 (JStr s) = Inr (JStr (take 200 s))"
| "slice200 (JArr xs) = Inr (JArr (take 200 xs))"
| "slice200 _ = Inl TypeError"

definition more_info :: "(json \<Rightarrow> string) \<Rightarrow> details option \<Rightarrow> error + string list" where
  "more_info fmt extra_details =
     (case extra_details of
        None \<Rightarrow> Inr []
      | Some d \<Rightarrow>
          (case slice200 (overview d) of
             Inl e \<Rightarrow> Inl e
           | Inr v \<Rightarrow>
               Inr [''**Release Date:** '' @ format_value fmt (release_date d),
                    ''**Overview:** '' @ format_value fmt v @ ''...'']))"

text \<open>
  A provider failure: no answer (network error, timeout), an HTTP error status, or a
  body that is not JSON.
\<close>

fun provider_failed :: "reply \<Rightarrow> bool" where
  "provider_failed NoReply = True"
| "provider_failed (Reply status body) = (400 \<le> status \<and> status < 600 \<or> body = None)"

text \<open>Missing data: a JSON body without a \<^verbatim>\<open>results\<close> entry, or with an empty one.\<close>

fun no_results :: "reply \<Rightarrow> bool" where
  "no_results (Reply status (Some (JObj kvs))) =
     (\<not> (400 \<le> status \<and> status < 600) \<and>
      (case map_of kvs ''results'' of None \<Rightarrow> True | Some v \<Rightarrow> \<not> truthy v))"
| "no_results _ = False"

text \<open>A small catalogue with a repeated title, used to run the lookups.\<close>

definition catalogue :: "movie list" where
  "catalogue =
     [\<lparr>label = 0, index = 0, title = ''Iron Man'', genres = ''Action'', director = ''Jon Favreau''\<rparr>,
      \<lparr>label = 1, index = 1, title = ''Avatar'', genres = ''Action'', director = ''James Cameron''\<rparr>,
      \<lparr>label = 2, index = 2, title = ''Avatar'', genres = ''Fantasy'', director = []\<rparr>]"

section \<open>The fuzzy title match: \<^verbatim>\<open>difflib.get_close_matches\<close>\<close>

text \<open>
  Line 308 resolves the typed title with
  \<^verbatim>\<open>difflib.get_close_matches(movie_to_search, list_of_all_titles, n=1, cutoff=0.6)\<close>, and
  line 395 asks for suggestions with \<^verbatim>\<open>n=5, cutoff=0.3\<close>. The function belongs to Python's
  standard library; the definitions below follow \<^verbatim>\<open>Lib/difflib.py\<close> and \<^verbatim>\<open>Lib/heapq.py\<close> of
  CPython 3.11 function by function. \<^verbatim>\<open>get_close_matches\<close> creates
  \<^verbatim>\<open>SequenceMatcher()\<close> with \<^verbatim>\<open>isjunk=None\<close> and \<^verbatim>\<open>autojunk=True\<close>, sets the query as
  the second sequence \<open>b\<close> once and each candidate as the first sequence \<open>a\<close> in turn.
  Sequences are lists over any element type; titles are lists of characters.
\<close>

subsection \<open>\<^verbatim>\<open>SequenceMatcher.__chain_b\<close>\<close>

text \<open>
  \<^verbatim>\<open>for i, elt in enumerate(b): indices = b2j.setdefault(elt, []); indices.append(i)\<close>:
  the positions of every element of \<open>b\<close>, in ascending order.
\<close>

definition b2j_all :: "'a list \<Rightarrow> ('a \<rightharpoonup> nat list)" where
  "b2j_all b =
     fold (\<lambda>(i, elt) b2j. b2j(elt \<mapsto> (case b2j elt of None \<Rightarrow> [] | Some indices \<Rightarrow> indices) @ [i]))
       (List.enumerate 0 b) Map.empty"

text \<open>
  No element is junk (\<^verbatim>\<open>isjunk\<close> is \<^verbatim>\<open>None\<close>). With \<^verbatim>\<open>autojunk\<close>, when \<open>b\<close> has at least
  200 elements, every element that occurs more than \<^verbatim>\<open>n // 100 + 1\<close> times is popular and
  is deleted from \<open>b2j\<close>.
\<close>

definition chain_b :: "'a list \<Rightarrow> ('a \<rightharpoonup> nat list)" where
  "chain_b b =
     (let b2j = b2j_all b; n = length b in
      if 200 \<le> n then
        (let ntest = n div 100 + 1 in
         (\<lambda>elt. case b2j elt of
                  None \<Rightarrow> None
                | Some idxs \<Rightarrow> if ntest < length idxs then None else Some idxs))
      else b2j)"

text \<open>\<^verbatim>\<open>self.bjunk.__contains__\<close>: the junk set stays empty.\<close>

definition isbjunk :: "'a \<Rightarrow> bool" where
  "isbjunk elt = False"

subsection \<open>\<^verbatim>\<open>SequenceMatcher.find_longest_match\<close>\<close>

text \<open>
  \<^verbatim>\<open>j2lenget(j-1, 0)\<close>: for \<open>j = 0\<close> the key is \<open>-1\<close>, which the dictionary never holds.
\<close>

definition j2lenget :: "(nat \<rightharpoonup> nat) \<Rightarrow> nat \<Rightarrow> nat" where
  "j2lenget j2len j = (if j = 0 then 0 else case j2len (j - 1) of None \<Rightarrow> 0 | Some k \<Rightarrow> k)"

text \<open>A block \<open>(i, j, k)\<close>: \<open>a[i:i+k]\<close> against \<open>b[j:j+k]\<close>.\<close>

type_synonym best = "nat \<times> nat \<times> nat"

text \<open>
  The inner loop \<^verbatim>\<open>for j in b2j.get(a[i], nothing)\<close> with its \<^verbatim>\<open>continue\<close> and
  \<^verbatim>\<open>break\<close>; the state is \<^verbatim>\<open>newj2len\<close> and \<^verbatim>\<open>besti, bestj, bestsize\<close>. The differences
  \<^verbatim>\<open>i-k+1\<close> and \<^verbatim>\<open>j-k+1\<close> are never negative (lemma \<open>inner_loop_ok\<close> below), so natural
  numbers compute them as Python's integers do.
\<close>

fun inner_loop ::
  "(nat \<rightharpoonup> nat) \<Rightarrow> nat \<Rightarrow> nat \<Rightarrow> nat \<Rightarrow> nat list \<Rightarrow> (nat \<rightharpoonup> nat) \<times> best \<Rightarrow> (nat \<rightharpoonup> nat) \<times> best" where
  "inner_loop j2len blo bhi i [] st = st"
| "inner_loop j2len blo bhi i (j # js) (newj2len, besti, bestj, bestsize) =
     (if j < blo then inner_loop j2len blo bhi i js (newj2len, besti, bestj, bestsize)
      else if bhi \<le> j then (newj2len, besti, bestj, bestsize)
      else
        (let k = j2lenget j2len j + 1 in
         if bestsize < k
         then inner_loop j2len blo bhi i js (newj2len(j \<mapsto> k), i + 1 - k, j + 1 - k, k)
         else inner_loop j2len blo bhi i js (newj2len(j \<mapsto> k), besti, bestj, bestsize)))"

text \<open>One round of the outer loop \<^verbatim>\<open>for i in range(alo, ahi)\<close>, and the whole loop.\<close>

definition row_step ::
  "'a list \<Rightarrow> ('a \<rightharpoonup> nat list) \<Rightarrow> nat \<Rightarrow> nat \<Rightarrow> nat \<Rightarrow> (nat \<rightharpoonup> nat) \<times> best \<Rightarrow> (nat \<rightharpoonup> nat) \<times> best" where
  "row_step a b2j blo bhi i st =
     inner_loop (fst st) blo bhi i (case b2j (a ! i) of None \<Rightarrow> [] | Some js \<Rightarrow> js)
       (Map.empty, snd st)"

definition longest_junk_free ::
  "'a list \<Rightarrow> ('a \<rightharpoonup> nat list) \<Rightarrow> nat \<Rightarrow> nat \<Rightarrow> nat \<Rightarrow> nat \<Rightarrow> best" where
  "longest_junk_free a b2j alo ahi blo bhi =
     snd (fold (row_step a b2j blo bhi) [alo..<ahi] (Map.empty, alo, blo, 0))"

text \<open>
  The four \<^verbatim>\<open>while\<close> loops that extend the block to the left and to the right: first by
  elements that are not junk, then by junk elements. \<open>ok\<close> is the test on \<^verbatim>\<open>b[...]\<close>.
\<close>

function extend_left :: "'a list \<Rightarrow> 'a list \<Rightarrow> ('a \<Rightarrow> bool) \<Rightarrow> nat \<Rightarrow> nat \<Rightarrow> best \<Rightarrow> best" where
  "extend_left a b ok alo blo (besti, bestj, bestsize) =
     (if alo < besti \<and> blo < bestj \<and> ok (b ! (bestj - 1)) \<and> a ! (besti - 1) = b ! (bestj - 1)
      then extend_left a b ok alo blo (besti - 1, bestj - 1, bestsize + 1)
      else (besti, bestj, bestsize))"
  by pat_completeness auto
termination
  by (relation "measure (\<lambda>(a, b, ok, alo, blo, besti, bestj, bestsize). besti)") auto

function extend_right :: "'a list \<Rightarrow> 'a list \<Rightarrow> ('a \<Rightarrow> bool) \<Rightarrow> nat \<Rightarrow> nat \<Rightarrow> best \<Rightarrow> best" where
  "extend_right a b ok ahi bhi (besti, bestj, bestsize) =
     (if besti + bestsize < ahi \<and> bestj + bestsize < bhi \<and> ok (b ! (bestj + bestsize))
         \<and> a ! (besti + bestsize) = b ! (bestj + bestsize)
      then extend_right a b ok ahi bhi (besti, bestj, bestsize + 1)
      else (besti, bestj, bestsize))"
  by pat_completeness auto
termination
  by (relation "measure (\<lambda>(a, b, ok, ahi, bhi, besti, bestj, bestsize). ahi - (besti + bestsize))") auto

declare extend_left.simps [simp del] extend_right.simps [simp del]

definition find_longest_match ::
  "'a list \<Rightarrow> 'a list \<Rightarrow> ('a \<rightharpoonup> nat list) \<Rightarrow> nat \<Rightarrow> nat \<Rightarrow> nat \<Rightarrow> nat \<Rightarrow> best" where
  "find_longest_match a b b2j alo ahi blo bhi =
     extend_right a b isbjunk ahi bhi
       (extend_left a b isbjunk alo blo
          (extend_right a b (\<lambda>elt. \<not> isbjunk elt) ahi bhi
             (extend_left a b (\<lambda>elt. \<not> isbjunk elt) alo blo
                (longest_junk_free a b2j alo ahi blo bhi))))"


subsection \<open>The block found lies in its region\<close>

text \<open>
  The loop over the regions below terminates because every block found lies inside the
  region searched. The invariants: \<open>ends_ok\<close> for the entries of \<^verbatim>\<open>j2len\<close> before row \<open>i\<close>,
  \<open>block_ok\<close> for the best block. The flag \<open>s\<close> adds that the block matches element by
  element, which holds when \<open>b2j\<close> maps elements to positions of \<open>b\<close> that hold them.
\<close>

definition sound_b2j :: "'a list \<Rightarrow> ('a \<rightharpoonup> nat list) \<Rightarrow> bool" where
  "sound_b2j b b2j = (\<forall>c js. b2j c = Some js \<longrightarrow> (\<forall>j\<in>set js. j < length b \<and> b ! j = c))"

definition ends_ok ::
  "'a list \<Rightarrow> 'a list \<Rightarrow> nat \<Rightarrow> nat \<Rightarrow> nat \<Rightarrow> bool \<Rightarrow> nat \<Rightarrow> (nat \<rightharpoonup> nat) \<Rightarrow> bool" where
  "ends_ok a b alo blo bhi s i m =
     (\<forall>j v. m j = Some v \<longrightarrow>
        1 \<le> v \<and> blo \<le> j \<and> j < bhi \<and> v \<le> j + 1 - blo \<and> v + alo \<le> i
        \<and> (s \<longrightarrow> (\<forall>t<v. a ! (i - 1 - t) = b ! (j - t))))"

definition block_ok ::
  "'a list \<Rightarrow> 'a list \<Rightarrow> nat \<Rightarrow> nat \<Rightarrow> nat \<Rightarrow> nat \<Rightarrow> bool \<Rightarrow> best \<Rightarrow> bool" where
  "block_ok a b alo ahi blo bhi s blk =
     (case blk of (i, j, k) \<Rightarrow>
        alo \<le> i \<and> blo \<le> j \<and> i + k \<le> max alo ahi \<and> j + k \<le> max blo bhi
        \<and> (s \<longrightarrow> (\<forall>t<k. a ! (i + t) = b ! (j + t))))"

lemma ends_ok_empty: "ends_ok a b alo blo bhi s i Map.empty"
  by (simp add: ends_ok_def)

lemma j2lenget_bounds:
  assumes "ends_ok a b alo blo bhi s i j2len" "blo \<le> j"
  shows "j2lenget j2len j + blo \<le> j" and "j2lenget j2len j + alo \<le> i \<or> j2lenget j2len j = 0"
    and "s \<Longrightarrow> t < j2lenget j2len j \<Longrightarrow> a ! (i - 1 - t) = b ! (j - 1 - t)"
proof -
  show "j2lenget j2len j + blo \<le> j"
  proof (cases "j = 0 \<or> j2len (j - 1) = None")
    case True
    then show ?thesis using assms(2) by (auto simp: j2lenget_def)
  next
    case False
    then obtain v where v: "j2len (j - 1) = Some v" and j: "j \<noteq> 0" by auto
    from assms(1) v have "v \<le> (j - 1) + 1 - blo" "blo \<le> j - 1" "1 \<le> v"
      by (auto simp: ends_ok_def)
    with v j show ?thesis by (simp add: j2lenget_def)
  qed
  show "j2lenget j2len j + alo \<le> i \<or> j2lenget j2len j = 0"
    using assms(1) by (auto simp: j2lenget_def ends_ok_def split: option.splits)
  show "a ! (i - 1 - t) = b ! (j - 1 - t)" if "s" "t < j2lenget j2len j"
    using assms(1) that by (auto simp: j2lenget_def ends_ok_def split: option.splits if_splits)
qed

lemma inner_loop_ok:
  assumes prev: "ends_ok a b alo blo bhi s i j2len"
    and js: "s \<longrightarrow> (\<forall>j\<in>set js. b ! j = a ! i)"
    and i: "alo \<le> i"
    and new: "ends_ok a b alo blo bhi s (Suc i) new"
    and best: "block_ok a b alo (Suc i) blo bhi s best"
  shows "ends_ok a b alo blo bhi s (Suc i) (fst (inner_loop j2len blo bhi i js (new, best)))
       \<and> block_ok a b alo (Suc i) blo bhi s (snd (inner_loop j2len blo bhi i js (new, best)))"
  using js new best
proof (induction js arbitrary: new best)
  case Nil
  then show ?case by simp
next
  case (Cons j js)
  obtain besti bestj bestsize where b: "best = (besti, bestj, bestsize)"
    by (cases best) auto
  from Cons.prems(1) have js': "s \<longrightarrow> (\<forall>j\<in>set js. b ! j = a ! i)" by simp
  show ?case
  proof (cases "j < blo")
    case True
    with Cons.IH [OF js' Cons.prems(2) Cons.prems(3)] show ?thesis by (simp add: b)
  next
    case lo: False
    show ?thesis
    proof (cases "bhi \<le> j")
      case True
      with lo Cons.prems show ?thesis by (simp add: b)
    next
      case hi: False
      define k where "k = j2lenget j2len j + 1"
      from lo have blo: "blo \<le> j" by simp
      have k1: "k + blo \<le> j + 1" using j2lenget_bounds(1) [OF prev blo] by (simp add: k_def)
      have k2: "k + alo \<le> i + 1" using j2lenget_bounds(2) [OF prev blo] i by (auto simp: k_def)
      have k3: "a ! (i - t) = b ! (j - t)" if "s" "t < k" for t
      proof (cases t)
        case 0
        with Cons.prems(1) that show ?thesis by simp
      next
        case (Suc t')
        with that have "t' < j2lenget j2len j" by (simp add: k_def)
        from j2lenget_bounds(3) [OF prev blo \<open>s\<close> this] Suc show ?thesis by simp
      qed
      have new': "ends_ok a b alo blo bhi s (Suc i) (new(j \<mapsto> k))"
        using Cons.prems(2) k1 k2 k3 blo hi by (auto simp: ends_ok_def k_def)
      have blk: "block_ok a b alo (Suc i) blo bhi s (i + 1 - k, j + 1 - k, k)"
      proof -
        have "a ! (i + 1 - k + t) = b ! (j + 1 - k + t)" if "s" "t < k" for t
        proof -
          have e1: "i + 1 - k + t = i - (k - 1 - t)" using that(2) k2 by arith
          have e2: "j + 1 - k + t = j - (k - 1 - t)" using that(2) k1 by arith
          have u: "k - 1 - t < k" using that(2) by arith
          show ?thesis unfolding e1 e2 by (rule k3 [OF \<open>s\<close> u])
        qed
        moreover have "alo \<le> i + 1 - k" "blo \<le> j + 1 - k" "i + 1 - k + k \<le> max alo (Suc i)"
          "j + 1 - k + k \<le> max blo bhi"
          using k1 k2 hi by arith+
        ultimately show ?thesis unfolding block_ok_def prod.case by blast
      qed
      show ?thesis
      proof (cases "bestsize < k")
        case True
        have eq: "inner_loop j2len blo bhi i (j # js) (new, besti, bestj, bestsize)
            = inner_loop j2len blo bhi i js (new(j \<mapsto> k), i + 1 - k, j + 1 - k, k)"
          using lo hi True by (simp add: k_def Let_def)
        show ?thesis unfolding b eq by (rule Cons.IH [OF js' new' blk])
      next
        case False
        have eq: "inner_loop j2len blo bhi i (j # js) (new, besti, bestj, bestsize)
            = inner_loop j2len blo bhi i js (new(j \<mapsto> k), besti, bestj, bestsize)"
          using lo hi False by (simp add: k_def Let_def)
        show ?thesis unfolding b eq by (rule Cons.IH [OF js' new' Cons.prems(3) [unfolded b]])
      qed
    qed
  qed
qed

lemma block_ok_mono:
  "block_ok a b alo ahi blo bhi s blk \<Longrightarrow> ahi \<le> ahi' \<Longrightarrow> block_ok a b alo ahi' blo bhi s blk"
  by (auto simp: block_ok_def)

lemma row_step_ok:
  assumes "ends_ok a b alo blo bhi s i (fst st)" "block_ok a b alo i blo bhi s (snd st)"
    and "alo \<le> i" and "s \<longrightarrow> sound_b2j b b2j"
  shows "ends_ok a b alo blo bhi s (Suc i) (fst (row_step a b2j blo bhi i st))
       \<and> block_ok a b alo (Suc i) blo bhi s (snd (row_step a b2j blo bhi i st))"
proof -
  have "s \<longrightarrow> (\<forall>j\<in>set (case b2j (a ! i) of None \<Rightarrow> [] | Some js \<Rightarrow> js). b ! j = a ! i)"
  proof (cases "b2j (a ! i)")
    case None
    then show ?thesis by simp
  next
    case (Some js)
    with assms(4) show ?thesis unfolding sound_b2j_def by auto
  qed
  from inner_loop_ok [OF assms(1) this assms(3) ends_ok_empty block_ok_mono [OF assms(2)]]
  show ?thesis by (simp add: row_step_def)
qed

lemma rows_ok:
  assumes "s \<longrightarrow> sound_b2j b b2j"
  shows "ends_ok a b alo blo bhi s (alo + d)
           (fst (fold (row_step a b2j blo bhi) [alo..<alo + d] (Map.empty, alo, blo, 0)))
       \<and> block_ok a b alo (alo + d) blo bhi s
           (snd (fold (row_step a b2j blo bhi) [alo..<alo + d] (Map.empty, alo, blo, 0)))"
proof (induction d)
  case 0
  show ?case by (simp add: ends_ok_def block_ok_def)
next
  case (Suc d)
  have "ends_ok a b alo blo bhi s (Suc (alo + d))
          (fst (row_step a b2j blo bhi (alo + d)
             (fold (row_step a b2j blo bhi) [alo..<alo + d] (Map.empty, alo, blo, 0))))
      \<and> block_ok a b alo (Suc (alo + d)) blo bhi s
          (snd (row_step a b2j blo bhi (alo + d)
             (fold (row_step a b2j blo bhi) [alo..<alo + d] (Map.empty, alo, blo, 0))))"
    using Suc.IH assms by (intro row_step_ok) auto
  then show ?case by simp
qed

lemma longest_junk_free_ok:
  assumes "s \<longrightarrow> sound_b2j b b2j"
  shows "block_ok a b alo ahi blo bhi s (longest_junk_free a b2j alo ahi blo bhi)"
proof (cases "alo \<le> ahi")
  case True
  then obtain d where d: "ahi = alo + d" using le_Suc_ex by blast
  from rows_ok [OF assms, of a alo blo bhi d] show ?thesis
    by (simp add: longest_junk_free_def d)
next
  case False
  then show ?thesis by (simp add: longest_junk_free_def block_ok_def)
qed

lemma extend_left_ok:
  "block_ok a b alo ahi blo bhi s blk \<Longrightarrow> block_ok a b alo ahi blo bhi s (extend_left a b ok alo blo blk)"
proof (induction a b ok alo blo blk rule: extend_left.induct)
  case (1 a b ok alo blo besti bestj bestsize)
  show ?case
  proof (cases "alo < besti \<and> blo < bestj \<and> ok (b ! (bestj - 1)) \<and> a ! (besti - 1) = b ! (bestj - 1)")
    case True
    from True have lt: "alo < besti" "blo < bestj" and eq: "a ! (besti - 1) = b ! (bestj - 1)"
      by simp_all
    from "1.prems" have bnd: "besti + bestsize \<le> max alo ahi" "bestj + bestsize \<le> max blo bhi"
      and val: "s \<longrightarrow> (\<forall>t<bestsize. a ! (besti + t) = b ! (bestj + t))"
      by (simp_all add: block_ok_def)
    have "a ! (besti - 1 + t) = b ! (bestj - 1 + t)" if "s" "t < bestsize + 1" for t
    proof (cases t)
      case 0
      with eq show ?thesis by simp
    next
      case (Suc t')
      with that val have "a ! (besti + t') = b ! (bestj + t')" by simp
      moreover have "besti - 1 + t = besti + t'" "bestj - 1 + t = bestj + t'"
        using lt Suc by arith+
      ultimately show ?thesis by simp
    qed
    moreover have "alo \<le> besti - 1" "blo \<le> bestj - 1"
      "besti - 1 + (bestsize + 1) \<le> max alo ahi" "bestj - 1 + (bestsize + 1) \<le> max blo bhi"
      using lt bnd by arith+
    ultimately have "block_ok a b alo ahi blo bhi s (besti - 1, bestj - 1, bestsize + 1)"
      unfolding block_ok_def prod.case by blast
    from "1.IH" [OF True this] have "block_ok a b alo ahi blo bhi s
        (extend_left a b ok alo blo (besti - 1, bestj - 1, bestsize + 1))" .
    moreover have "extend_left a b ok alo blo (besti, bestj, bestsize)
        = extend_left a b ok alo blo (besti - 1, bestj - 1, bestsize + 1)"
      using True by (subst extend_left.simps) simp
    ultimately show ?thesis by simp
  next
    case False
    then have "extend_left a b ok alo blo (besti, bestj, bestsize) = (besti, bestj, bestsize)"
      by (subst extend_left.simps) auto
    with "1.prems" show ?thesis by simp
  qed
qed

lemma extend_right_ok:
  "block_ok a b alo ahi blo bhi s blk \<Longrightarrow> block_ok a b alo ahi blo bhi s (extend_right a b ok ahi bhi blk)"
proof (induction a b ok ahi bhi blk rule: extend_right.induct)
  case (1 a b ok ahi bhi besti bestj bestsize)
  show ?case
  proof (cases "besti + bestsize < ahi \<and> bestj + bestsize < bhi \<and> ok (b ! (bestj + bestsize))
         \<and> a ! (besti + bestsize) = b ! (bestj + bestsize)")
    case True
    have "block_ok a b alo ahi blo bhi s (besti, bestj, bestsize + 1)"
      using True "1.prems" by (auto simp: block_ok_def less_Suc_eq)
    from "1.IH" [OF True this] have "block_ok a b alo ahi blo bhi s
        (extend_right a b ok ahi bhi (besti, bestj, bestsize + 1))" .
    moreover have "extend_right a b ok ahi bhi (besti, bestj, bestsize)
        = extend_right a b ok ahi bhi (besti, bestj, bestsize + 1)"
      using True by (subst extend_right.simps) simp
    ultimately show ?thesis by simp
  next
    case False
    then have "extend_right a b ok ahi bhi (besti, bestj, bestsize) = (besti, bestj, bestsize)"
      by (subst extend_right.simps) auto
    with "1.prems" show ?thesis by simp
  qed
qed

lemma find_longest_match_ok:
  assumes "s \<longrightarrow> sound_b2j b b2j"
  shows "block_ok a b alo ahi blo bhi s (find_longest_match a b b2j alo ahi blo bhi)"
  unfolding find_longest_match_def
  by (intro extend_right_ok extend_left_ok longest_junk_free_ok assms)

lemma find_longest_match_bounds:
  assumes "find_longest_match a b b2j alo ahi blo bhi = (i, j, k)" "k \<noteq> 0"
  shows "alo \<le> i \<and> i + k \<le> ahi \<and> blo \<le> j \<and> j + k \<le> bhi"
proof -
  have "block_ok a b alo ahi blo bhi False (i, j, k)"
    using find_longest_match_ok [of False b b2j a alo ahi blo bhi] assms(1) by simp
  then have "alo \<le> i" "blo \<le> j" "i + k \<le> max alo ahi" "j + k \<le> max blo bhi"
    by (simp_all add: block_ok_def)
  with assms(2) show ?thesis by (auto simp: max_def split: if_splits)
qed

subsection \<open>\<^verbatim>\<open>SequenceMatcher.get_matching_blocks\<close>\<close>

text \<open>
  A region \<open>(alo, ahi, blo, bhi)\<close> still to be searched. \<^verbatim>\<open>queue\<close> is a Python list used
  as a stack (\<^verbatim>\<open>pop()\<close> takes the element appended last); here the top of the stack is
  the head of the list.
\<close>

type_synonym region = "nat \<times> nat \<times> nat \<times> nat"

definition region_size :: "region \<Rightarrow> nat" where
  "region_size r = (case r of (alo, ahi, blo, bhi) \<Rightarrow> 2 * (ahi - alo) + 1)"

function match_loop ::
  "'a list \<Rightarrow> 'a list \<Rightarrow> ('a \<rightharpoonup> nat list) \<Rightarrow> region list \<Rightarrow> best list \<Rightarrow> best list" where
  "match_loop a b b2j [] matching_blocks = matching_blocks"
| "match_loop a b b2j ((alo, ahi, blo, bhi) # queue) matching_blocks =
     (case find_longest_match a b b2j alo ahi blo bhi of
        (i, j, k) \<Rightarrow>
          if k \<noteq> 0 then
            match_loop a b b2j
              ((if i + k < ahi \<and> j + k < bhi then [(i + k, ahi, j + k, bhi)] else []) @
               (if alo < i \<and> blo < j then [(alo, i, blo, j)] else []) @ queue)
              (matching_blocks @ [(i, j, k)])
          else match_loop a b b2j queue matching_blocks)"
  by pat_completeness auto
termination
proof (relation "measure (\<lambda>(a, b, b2j, queue, blocks). sum_list (map region_size queue))",
    goal_cases)
  case 1
  show ?case by simp
next
  case (2 a b b2j alo ahi blo bhi queue matching_blocks x1 x2 x1a x2a)
  then have "find_longest_match a b b2j alo ahi blo bhi = (x1, x1a, x2a)" by simp
  from find_longest_match_bounds [OF this \<open>x2a \<noteq> 0\<close>] \<open>x2a \<noteq> 0\<close>
  show ?case by (auto simp: region_size_def)
next
  case 3
  then show ?case by (simp add: region_size_def)
qed

declare match_loop.simps [simp del]

text \<open>
  The loop that merges adjacent blocks, with state \<^verbatim>\<open>i1, j1, k1\<close> and
  \<^verbatim>\<open>non_adjacent\<close>; the result gets the dummy block \<^verbatim>\<open>(la, lb, 0)\<close> appended.
  \<^verbatim>\<open>matching_blocks.sort()\<close> orders the triples lexicographically.
\<close>

fun collapse_loop :: "best list \<Rightarrow> best \<Rightarrow> best list \<Rightarrow> best list" where
  "collapse_loop [] (i1, j1, k1) non_adjacent =
     (if k1 \<noteq> 0 then non_adjacent @ [(i1, j1, k1)] else non_adjacent)"
| "collapse_loop ((i2, j2, k2) # rest) (i1, j1, k1) non_adjacent =
     (if i1 + k1 = i2 \<and> j1 + k1 = j2 then collapse_loop rest (i1, j1, k1 + k2) non_adjacent
      else collapse_loop rest (i2, j2, k2)
             (if k1 \<noteq> 0 then non_adjacent @ [(i1, j1, k1)] else non_adjacent))"

definition get_matching_blocks :: "'a list \<Rightarrow> 'a list \<Rightarrow> ('a \<rightharpoonup> nat list) \<Rightarrow> best list" where
  "get_matching_blocks a b b2j =
     (let la = length a; lb = length b;
          matching_blocks = sort (match_loop a b b2j [(0, la, 0, lb)] [])
      in collapse_loop matching_blocks (0, 0, 0) [] @ [(la, lb, 0)])"

subsection \<open>The three ratios\<close>

text \<open>
  \<^verbatim>\<open>_calculate_ratio\<close>: \<^verbatim>\<open>2.0 * matches / length\<close>, and \<open>1.0\<close> for two empty sequences.
  The float is modelled by the rational it rounds; comparisons with the cut-offs
  \<open>0.6\<close> and \<open>0.3\<close> agree for every pair of strings short enough to be stored.
\<close>

definition calculate_ratio :: "nat \<Rightarrow> nat \<Rightarrow> rat" where
  "calculate_ratio matches len = (if len \<noteq> 0 then 2 * of_nat matches / of_nat len else 1)"

definition ratio :: "'a list \<Rightarrow> 'a list \<Rightarrow> ('a \<rightharpoonup> nat list) \<Rightarrow> rat" where
  "ratio a b b2j =
     calculate_ratio (sum_list (map (\<lambda>triple. snd (snd triple)) (get_matching_blocks a b b2j)))
       (length a + length b)"

text \<open>
  \<^verbatim>\<open>quick_ratio\<close>: \<^verbatim>\<open>fullbcount\<close> counts the elements of \<open>b\<close>; the loop over \<open>a\<close> keeps in
  \<^verbatim>\<open>avail\<close> how many occurrences are left, which may go negative.
\<close>

definition fullbcount :: "'a list \<Rightarrow> ('a \<rightharpoonup> nat)" where
  "fullbcount b =
     fold (\<lambda>elt cnt. cnt(elt \<mapsto> (case cnt elt of None \<Rightarrow> 0 | Some c \<Rightarrow> c) + 1)) b Map.empty"

definition quick_step :: "('a \<rightharpoonup> nat) \<Rightarrow> 'a \<Rightarrow> ('a \<rightharpoonup> int) \<times> nat \<Rightarrow> ('a \<rightharpoonup> int) \<times> nat" where
  "quick_step cnt elt st =
     (case st of (avail, matches) \<Rightarrow>
        let numb = (case avail elt of
                      Some v \<Rightarrow> v
                    | None \<Rightarrow> (case cnt elt of None \<Rightarrow> 0 | Some c \<Rightarrow> int c))
        in (avail(elt \<mapsto> numb - 1), if 0 < numb then matches + 1 else matches))"

definition quick_ratio :: "'a list \<Rightarrow> 'a list \<Rightarrow> rat" where
  "quick_ratio a b =
     calculate_ratio (snd (fold (quick_step (fullbcount b)) a (Map.empty, 0)))
       (length a + length b)"

definition real_quick_ratio :: "'a list \<Rightarrow> 'a list \<Rightarrow> rat" where
  "real_quick_ratio a b = calculate_ratio (min (length a) (length b)) (length a + length b)"

subsection \<open>\<^verbatim>\<open>heapq.nlargest\<close> and \<^verbatim>\<open>get_close_matches\<close>\<close>

text \<open>
  \<^verbatim>\<open>heapq.nlargest(n, iterable)\<close> returns what \<^verbatim>\<open>sorted(iterable, reverse=True)[:n]\<close>
  returns (its documentation; the shortcut through \<^verbatim>\<open>max\<close> for \<open>n = 1\<close> yields the same
  list). The elements are the tuples \<^verbatim>\<open>(ratio, candidate)\<close>, compared as Python compares
  tuples: by ratio first and by the candidate string next.
\<close>

definition nlargest :: "int \<Rightarrow> 'a::linorder list \<Rightarrow> 'a list" where
  "nlargest n xs = py_slice (sorted_reverse (\<lambda>x. x) xs) 0 n"

text \<open>The list \<^verbatim>\<open>result\<close> that the loop over the candidates builds.\<close>

definition close_results :: "'a::linorder list \<Rightarrow> 'a list list \<Rightarrow> rat \<Rightarrow> (rat \<times> 'a list) list" where
  "close_results word possibilities cutoff =
     (let b2j = chain_b word in
      concat (map (\<lambda>x.
        if cutoff \<le> real_quick_ratio x word \<and> cutoff \<le> quick_ratio x word
           \<and> cutoff \<le> ratio x word b2j
        then [(ratio x word b2j, x)] else []) possibilities))"

definition get_close_matches ::
  "'a::linorder list \<Rightarrow> 'a list list \<Rightarrow> int \<Rightarrow> rat \<Rightarrow> error + 'a list list" where
  "get_close_matches word possibilities n cutoff =
     (if \<not> 0 < n then Inl ValueError
      else if \<not> (0 \<le> cutoff \<and> cutoff \<le> 1) then Inl ValueError
      else Inr (map snd (nlargest n (close_results word possibilities cutoff))))"

text \<open>
  Lines 307, 308 and 395: the two calls of the script, on the titles in load order.
\<close>

definition list_of_all_titles :: "movie list \<Rightarrow> string list" where
  "list_of_all_titles movies_data = map title movies_data"

definition find_close_match :: "string \<Rightarrow> movie list \<Rightarrow> error + string list" where
  "find_close_match movie_to_search movies_data =
     get_close_matches movie_to_search (list_of_all_titles movies_data) 1 (3/5)"

definition suggestions :: "string \<Rightarrow> movie list \<Rightarrow> error + string list" where
  "suggestions movie_to_search movies_data =
     get_close_matches movie_to_search (list_of_all_titles movies_data) 5 (3/10)"

section \<open>Properties\<close>

subsection \<open>Indexing, enumeration and the descending stable sort\<close>

lemma getitem_Inr_iff:
  "(\<exists>x. getitem xs i = Inr x) \<longleftrightarrow> - int (length xs) \<le> i \<and> i < int (length xs)"
  by (auto simp: getitem_def Let_def)

lemma getitem_Inl_iff:
  "getitem xs i = Inl IndexError \<longleftrightarrow>
     (i < - int (length xs) \<or> int (length xs) \<le> i) \<and> - (2 ^ 63) \<le> i \<and> i < 2 ^ 63"
  by (auto simp: getitem_def Let_def)

lemma getitem_overflow_iff:
  "getitem xs i = Inl OverflowError \<longleftrightarrow>
     (i < - int (length xs) \<or> int (length xs) \<le> i) \<and> (i < - (2 ^ 63) \<or> 2 ^ 63 \<le> i)"
  by (auto simp: getitem_def Let_def)

lemma getitem_negative:
  "- int (length xs) \<le> i \<Longrightarrow> i < 0 \<Longrightarrow> getitem xs i = getitem xs (i + int (length xs))"
  by (simp add: getitem_def Let_def)

lemma getitem_valid:
  "0 \<le> i \<Longrightarrow> i < int (length xs) \<Longrightarrow> getitem xs i = Inr (xs ! nat i)"
  by (simp add: getitem_def Let_def)

lemma length_enumerate_from [simp]: "length (enumerate_from k xs) = length xs"
  by (induction xs arbitrary: k) auto

lemma map_snd_enumerate_from [simp]: "map snd (enumerate_from k xs) = xs"
  by (induction xs arbitrary: k) auto

lemma fst_enumerate_from_bounds:
  "p \<in> set (enumerate_from k xs) \<Longrightarrow> k \<le> fst p \<and> fst p < k + int (length xs)"
  by (induction xs arbitrary: k) force+

lemma enumerate_from_increasing:
  "sorted_wrt (\<lambda>p q. fst p < fst q) (enumerate_from k xs)"
proof (induction xs arbitrary: k)
  case Nil
  show ?case by simp
next
  case (Cons x xs)
  have "\<forall>q\<in>set (enumerate_from (k + 1) xs). k < fst q"
    using fst_enumerate_from_bounds [of _ "k + 1" xs] by force
  with Cons.IH [of "k + 1"] show ?case by simp
qed

lemma mset_sorted_reverse [simp]: "mset (sorted_reverse key xs) = mset xs"
  by (simp add: sorted_reverse_def)

lemma length_sorted_reverse [simp]: "length (sorted_reverse key xs) = length xs"
  by (simp add: sorted_reverse_def)

lemma set_sorted_reverse [simp]: "set (sorted_reverse key xs) = set xs"
  by (simp add: sorted_reverse_def)

lemma sorted_reverse_descending:
  "sorted_wrt (\<lambda>a b. key b \<le> key a) (sorted_reverse key xs)"
proof -
  have "sorted (map key (sort_key key (rev xs)))"
    by (rule sorted_sort_key)
  then have "sorted_wrt (\<lambda>a b. key a \<le> key b) (sort_key key (rev xs))"
    by (simp add: sorted_map)
  then show ?thesis
    by (simp add: sorted_reverse_def sorted_wrt_rev)
qed

lemma sorted_reverse_stable:
  "filter (\<lambda>y. key y = k) (sorted_reverse key xs) = filter (\<lambda>y. key y = k) xs"
proof -
  have "filter (\<lambda>y. key y = k) (sort_key key (rev xs)) = filter (\<lambda>y. key y = k) (rev xs)"
    by (rule sort_key_stable)
  then have "rev (filter (\<lambda>y. key y = k) (sort_key key (rev xs))) = filter (\<lambda>y. key y = k) xs"
    by (simp add: rev_filter)
  then show ?thesis
    by (simp add: sorted_reverse_def rev_filter)
qed

lemma equal_keys_keep_order:
  "(\<And>k. sorted_wrt P (filter (\<lambda>y. key y = k) ys)) \<Longrightarrow>
   sorted_wrt (\<lambda>a b. key a = key b \<longrightarrow> P a b) ys"
proof (induction ys)
  case Nil
  show ?case by simp
next
  case (Cons y ys)
  have tails: "sorted_wrt P (filter (\<lambda>z. key z = k) ys)" for k
    using Cons.prems [of k] by (simp split: if_splits)
  have "P y z" if "z \<in> set ys" "key y = key z" for z
    using Cons.prems [of "key y"] that by auto
  with Cons.IH [OF tails] show ?case by auto
qed

lemma sorted_wrt_conj:
  "sorted_wrt P xs \<Longrightarrow> sorted_wrt Q xs \<Longrightarrow> sorted_wrt (\<lambda>a b. P a b \<and> Q a b) xs"
  by (induction xs) auto

lemma sorted_reverse_ties:
  assumes "sorted_wrt P xs"
  shows "sorted_wrt (\<lambda>a b. key b \<le> key a \<and> (key a = key b \<longrightarrow> P a b)) (sorted_reverse key xs)"
proof -
  have "sorted_wrt P (filter (\<lambda>y. key y = k) (sorted_reverse key xs))" for k
    using assms by (simp add: sorted_reverse_stable sorted_wrt_filter)
  then have "sorted_wrt (\<lambda>a b. key a = key b \<longrightarrow> P a b) (sorted_reverse key xs)"
    by (rule equal_keys_keep_order)
  with sorted_reverse_descending [of key xs] show ?thesis
    by (rule sorted_wrt_conj)
qed

lemma sorted_wrt_py_slice: "sorted_wrt P xs \<Longrightarrow> sorted_wrt P (py_slice xs lo hi)"
  by (simp add: py_slice_def sorted_wrt_take sorted_wrt_drop)

lemma set_py_slice: "set (py_slice xs lo hi) \<subseteq> set xs"
  unfolding py_slice_def by (meson set_drop_subset set_take_subset subset_trans)

lemma length_py_slice_top:
  "0 \<le> n \<Longrightarrow> int (length (py_slice xs 1 (n + 1))) = min n (int (length xs) - 1) \<or> xs = []"
  by (cases xs) (auto simp: py_slice_def slice_bound_def)


lemma similarity_score_valid:
  "0 \<le> i \<Longrightarrow> i < int (length similarity) \<Longrightarrow>
   similarity_score similarity i = Inr (enumerate_from 0 (similarity ! nat i))"
  by (simp add: similarity_score_def getitem_valid)

lemma recommend_valid:
  "0 \<le> i \<Longrightarrow> i < int (length similarity) \<Longrightarrow>
   recommend similarity i n =
     Inr (py_slice (sorted_reverse snd (enumerate_from 0 (similarity ! nat i))) 1 (n + 1))"
  by (simp add: recommend_def similarity_score_valid sorted_similar_movies_def)

text \<open>
  Claim C1 (the output of \<open>recommend\<close> never holds the query's own index). The code drops
  rank 0 of the sorted row, not the entry whose index is the query's. When an item with a
  smaller index has the same score as the query (items 0 and 1 below are duplicates, both
  with score 1 in row 1), the stable sort puts that item first, it is the one dropped, and
  the query itself (index 1) heads the output.
\<close>

theorem recommend_keeps_query_on_tie:
  "recommend [[1, 1, 1/10], [1, 1, 1/10], [1/10, 1/10, 1::rat]] 1 2 = Inr [(1, 1), (2, 1/10)]"
  by (simp add: recommend_def similarity_score_def getitem_def sorted_similar_movies_def
      sorted_reverse_def py_slice_def slice_bound_def)

text \<open>
  What the slice does achieve: when the query's own score is strictly greater than every
  other score of its row, rank 0 is the query and the output does not hold it.
\<close>

lemma nth_enumerate_from:
  "j < length xs \<Longrightarrow> enumerate_from k xs ! j = (k + int j, xs ! j)"
proof (induction xs arbitrary: k j)
  case Nil
  then show ?case by simp
next
  case (Cons x xs)
  show ?case
  proof (cases j)
    case 0
    then show ?thesis by simp
  next
    case (Suc j')
    with Cons.prems have "j' < length xs" by simp
    from Cons.IH [OF this, of "k + 1"] Suc show ?thesis by simp
  qed
qed

lemma enumerate_from_eq:
  "enumerate_from k xs = map (\<lambda>j. (k + int j, xs ! j)) [0..<length xs]"
  by (rule nth_equalityI) (simp_all add: nth_enumerate_from)

lemma distinct_fst_enumerate_from: "distinct (map fst (enumerate_from k xs))"
proof -
  have "map fst (enumerate_from k xs) = map (\<lambda>j. k + int j) [0..<length xs]"
    by (simp add: enumerate_from_eq comp_def)
  moreover have "distinct (map (\<lambda>j. k + int j) [0..<length xs])"
    by (simp add: distinct_map inj_on_def)
  ultimately show ?thesis by simp
qed

lemma distinct_fst_sorted_reverse:
  "distinct (map fst (sorted_reverse key xs)) = distinct (map fst xs)"
proof -
  have "mset (map fst (sorted_reverse key xs)) = mset (map fst xs)" by simp
  then show ?thesis by (rule mset_eq_imp_distinct_iff)
qed

lemma set_py_slice_tail: "set (py_slice (y # ys) 1 hi) \<subseteq> set ys"
proof -
  have "py_slice (y # ys) 1 hi = drop 1 (take (slice_bound (Suc (length ys)) hi) (y # ys))"
    by (simp add: py_slice_def slice_bound_def)
  also have "\<dots> = take (slice_bound (Suc (length ys)) hi - 1) ys"
    by (cases "slice_bound (Suc (length ys)) hi") simp_all
  finally show ?thesis using set_take_subset by metis
qed

lemma recommend_excludes_strict_maximum:
  assumes i: "0 \<le> i" "i < int (length similarity)"
    and len: "nat i < length (similarity ! nat i)"
    and mx: "\<forall>j<length (similarity ! nat i). j \<noteq> nat i \<longrightarrow>
               similarity ! nat i ! j < similarity ! nat i ! nat i"
    and out: "recommend similarity i n = Inr out"
  shows "i \<notin> fst ` set out"
proof -
  let ?row = "similarity ! nat i"
  let ?xs = "enumerate_from 0 ?row"
  let ?ys = "sorted_reverse snd ?xs"
  have mem: "p \<in> set ?xs \<longleftrightarrow> (\<exists>j<length ?row. p = (int j, ?row ! j))" for p
    by (auto simp: enumerate_from_eq)
  have p0: "(i, ?row ! nat i) \<in> set ?ys"
    using len i by (simp add: mem) (metis int_nat_eq)
  then obtain y ys' where ys: "?ys = y # ys'" by (cases ?ys) auto
  have desc: "\<forall>q\<in>set ys'. snd q \<le> snd y"
    using sorted_reverse_descending [of snd ?xs] by (simp add: ys)
  have "y \<in> set ?xs" using ys set_sorted_reverse [of snd ?xs] by (metis list.set_intros(1))
  then obtain j where j: "j < length ?row" "y = (int j, ?row ! j)" by (auto simp: mem)
  have "j = nat i"
  proof (rule ccontr)
    assume ne: "j \<noteq> nat i"
    with j i have "y \<noteq> (i, ?row ! nat i)" by auto
    with p0 have "(i, ?row ! nat i) \<in> set ys'" by (simp add: ys)
    with desc j have "?row ! nat i \<le> ?row ! j" by force
    moreover from mx j ne have "?row ! j < ?row ! nat i" by simp
    ultimately show False by simp
  qed
  with j i have y: "fst y = i" by simp
  have "distinct (map fst ?ys)"
    by (simp only: distinct_fst_sorted_reverse distinct_fst_enumerate_from)
  then have "distinct (fst y # map fst ys')" by (simp only: ys list.map)
  then have "fst y \<notin> fst ` set ys'" by simp
  with y have notin: "i \<notin> fst ` set ys'" by simp
  from recommend_valid [OF i, of n] out have "out = py_slice ?ys 1 (n + 1)" by simp
  then have "set out \<subseteq> set ys'" using set_py_slice_tail [of y ys' "n + 1"] by (simp add: ys)
  with notin show ?thesis by auto
qed

text \<open>
  Claim C3, as stated, fails: index \<open>-1\<close> is below 0, yet \<open>recommend\<close> does not fail; it
  reads the last row of the matrix, as Python indexing does.
\<close>

theorem recommend_negative_index_returns:
  "(-1::int) < 0 \<and> recommend [[1, 4/5], [4/5, 1::rat]] (-1) 1 = Inr [(0, 4/5)]"
  by (simp add: recommend_def similarity_score_def getitem_def sorted_similar_movies_def
      sorted_reverse_def py_slice_def slice_bound_def)

text \<open>
  Claim C3, amended: \<open>recommend\<close> returns a result exactly when the index lies in
  \<open>[-N, N)\<close>: for an index in \<open>[0, N)\<close> it ranks the row of that index, and for an index
  in \<open>[-N, 0)\<close> it does what it does for the index plus \<open>N\<close>. For every index from \<open>N\<close>
  on and every index below \<open>-N\<close> it fails: with \<open>IndexError\<close> when the index fits a signed
  64-bit integer, with \<open>OverflowError\<close> when it does not.
\<close>

theorem recommend_fails_iff:
  "(recommend similarity i n = Inl IndexError) =
     ((i < - int (length similarity) \<or> int (length similarity) \<le> i)
      \<and> - (2 ^ 63) \<le> i \<and> i < 2 ^ 63)
   \<and> (recommend similarity i n = Inl OverflowError) =
     ((i < - int (length similarity) \<or> int (length similarity) \<le> i)
      \<and> (i < - (2 ^ 63) \<or> 2 ^ 63 \<le> i))
   \<and> (\<exists>out. recommend similarity i n = Inr out) =
     (- int (length similarity) \<le> i \<and> i < int (length similarity))
   \<and> (- int (length similarity) \<le> i \<and> i < 0 \<longrightarrow>
        recommend similarity i n = recommend similarity (i + int (length similarity)) n)
   \<and> (0 \<le> i \<and> i < int (length similarity) \<longrightarrow>
        recommend similarity i n =
          Inr (py_slice (sorted_similar_movies (enumerate_from 0 (similarity ! nat i)))
                 1 (n + 1)))"
proof (intro conjI impI)
  have cases: "getitem similarity i = Inl IndexError \<or> getitem similarity i = Inl OverflowError
      \<or> (\<exists>row. getitem similarity i = Inr row)"
    by (auto simp: getitem_def Let_def)
  show "(recommend similarity i n = Inl IndexError) =
     ((i < - int (length similarity) \<or> int (length similarity) \<le> i)
      \<and> - (2 ^ 63) \<le> i \<and> i < 2 ^ 63)"
    using cases getitem_Inl_iff [of similarity i]
    by (auto simp: recommend_def similarity_score_def split: sum.splits)
  show "(recommend similarity i n = Inl OverflowError) =
     ((i < - int (length similarity) \<or> int (length similarity) \<le> i)
      \<and> (i < - (2 ^ 63) \<or> 2 ^ 63 \<le> i))"
    using cases getitem_overflow_iff [of similarity i]
    by (auto simp: recommend_def similarity_score_def split: sum.splits)
  show "(\<exists>out. recommend similarity i n = Inr out) =
     (- int (length similarity) \<le> i \<and> i < int (length similarity))"
    using cases getitem_Inr_iff [of similarity i]
    by (auto simp: recommend_def similarity_score_def split: sum.splits)
  show "recommend similarity i n = recommend similarity (i + int (length similarity)) n"
    if "- int (length similarity) \<le> i \<and> i < 0"
    using that getitem_negative [of similarity i]
    by (simp add: recommend_def similarity_score_def)
  show "recommend similarity i n =
      Inr (py_slice (sorted_similar_movies (enumerate_from 0 (similarity ! nat i))) 1 (n + 1))"
    if "0 \<le> i \<and> i < int (length similarity)"
    using that by (simp add: recommend_def similarity_score_def getitem_valid)
qed

theorem recommend_fails_iff_witness:
  "recommend [[1, 4/5], [4/5, 1::rat]] 2 1 = Inl IndexError
   \<and> recommend [[1, 4/5], [4/5, 1::rat]] (-3) 1 = Inl IndexError
   \<and> recommend [[1, 4/5], [4/5, 1::rat]] (2 ^ 63) 1 = Inl OverflowError
   \<and> recommend [[1, 4/5], [4/5, 1::rat]] (-2) 1 = recommend [[1, 4/5], [4/5, 1::rat]] 0 1
   \<and> recommend [[1, 4/5], [4/5, 1::rat]] 0 1 = Inr [(1, 4/5)]
   \<and> recommend [[1, 4/5], [4/5, 1::rat]] (-1) 1 = recommend [[1, 4/5], [4/5, 1::rat]] 1 1
   \<and> recommend [[1, 4/5], [4/5, 1::rat]] 1 1 = Inr [(0, 4/5)]"
proof -
  let ?S = "[[1, 4/5], [4/5, 1::rat]]"
  have srt: "sorted_similar_movies [(0::int, 1::rat), (1, 4/5)] = [(0, 1), (1, 4/5)]"
      "sorted_similar_movies [(0::int, 4/5::rat), (1, 1)] = [(1, 1), (0, 4/5)]"
    by (simp_all add: sorted_similar_movies_def sorted_reverse_def)
  have a: "recommend ?S 2 1 = Inl IndexError"
    using recommend_fails_iff [of ?S 2 1] by simp
  have b: "recommend ?S (-3) 1 = Inl IndexError"
    using recommend_fails_iff [of ?S "-3" 1] by simp
  have c: "recommend ?S (2 ^ 63) 1 = Inl OverflowError"
    using recommend_fails_iff [of ?S "2 ^ 63" 1] by simp
  have d: "recommend ?S (-2) 1 = recommend ?S 0 1"
    using recommend_fails_iff [of ?S "-2" 1] by simp
  have e: "recommend ?S 0 1 = Inr [(1, 4/5)]"
    using recommend_fails_iff [of ?S 0 1] by (simp add: srt py_slice_def slice_bound_def)
  have f: "recommend ?S (-1) 1 = recommend ?S 1 1"
    using recommend_fails_iff [of ?S "-1" 1] by simp
  have g: "recommend ?S 1 1 = Inr [(0, 4/5)]"
    using recommend_fails_iff [of ?S 1 1] by (simp add: srt py_slice_def slice_bound_def)
  from a b c d e f g show ?thesis by simp
qed

text \<open>
  Claim C4: for a valid index the output is sorted by descending score, and entries with
  equal scores keep ascending catalogue order. \<open>sorted_wrt\<close> relates every earlier entry to
  every later one, adjacent pairs included.
\<close>

theorem recommend_sorted_descending_stable:
  assumes "0 \<le> i" "i < int (length similarity)"
  shows "\<exists>out. recommend similarity i n = Inr out
     \<and> sorted_wrt (\<lambda>p q. snd q \<le> snd p \<and> (snd p = snd q \<longrightarrow> fst p < fst q)) out"
proof -
  let ?row = "similarity ! nat i"
  have "sorted_wrt (\<lambda>p q. snd q \<le> snd p \<and> (snd p = snd q \<longrightarrow> fst p < fst q))
          (sorted_reverse snd (enumerate_from 0 ?row))"
    by (rule sorted_reverse_ties) (rule enumerate_from_increasing)
  then have "sorted_wrt (\<lambda>p q. snd q \<le> snd p \<and> (snd p = snd q \<longrightarrow> fst p < fst q))
          (py_slice (sorted_reverse snd (enumerate_from 0 ?row)) 1 (n + 1))"
    by (rule sorted_wrt_py_slice)
  with recommend_valid [OF assms] show ?thesis by simp
qed

theorem recommend_sorted_descending_stable_witness:
  "(0::int) \<le> 0 \<and> (0::int) < int (length [[1, 1/2, 4/5, 1/2], [1/2, 1, 0, 0], [4/5, 0, 1, 0], [1/2, 0, 0, 1::rat]])
   \<and> recommend [[1, 1/2, 4/5, 1/2], [1/2, 1, 0, 0], [4/5, 0, 1, 0], [1/2, 0, 0, 1::rat]] 0 3
       = Inr [(2, 4/5), (1, 1/2), (3, 1/2)]
   \<and> sorted_wrt (\<lambda>p q. snd q \<le> snd p \<and> (snd p = snd q \<longrightarrow> fst p < fst q))
       [(2::int, 4/5::rat), (1, 1/2), (3, 1/2)]"
proof -
  let ?S = "[[1, 1/2, 4/5, 1/2], [1/2, 1, 0, 0], [4/5, 0, 1, 0], [1/2, 0, 0, 1::rat]]"
  have r: "recommend ?S 0 3 = Inr [(2, 4/5), (1, 1/2), (3, 1/2)]"
    by (simp add: recommend_def similarity_score_def getitem_def sorted_similar_movies_def
        sorted_reverse_def py_slice_def slice_bound_def)
  from recommend_sorted_descending_stable [of 0 ?S 3] r show ?thesis by simp
qed

lemma square_row: "square similarity \<Longrightarrow> k < length similarity \<Longrightarrow> length (similarity ! k) = length similarity"
  by (simp add: square_def list_all_length)

text \<open>
  Claim C5: for a square matrix of size \<open>N\<close>, a valid index and \<open>topN \<ge> 1\<close>, the output
  has \<open>min topN (N - 1)\<close> entries.
\<close>

theorem recommend_length:
  assumes "square similarity" "0 \<le> i" "i < int (length similarity)" "1 \<le> n"
  shows "\<exists>out. recommend similarity i n = Inr out
     \<and> int (length out) = min n (int (length similarity) - 1)"
proof -
  let ?xs = "sorted_reverse snd (enumerate_from 0 (similarity ! nat i))"
  have len: "length ?xs = length similarity"
    using assms by (simp add: square_row)
  have "0 < int (length similarity)" using assms(2,3) by linarith
  then have "length ?xs \<noteq> 0" using len by simp
  then have "?xs \<noteq> []" by (simp only: length_0_conv not_False_eq_True)
  with length_py_slice_top [of n ?xs] assms len
  have "int (length (py_slice ?xs 1 (n + 1))) = min n (int (length similarity) - 1)" by simp
  with recommend_valid [OF assms(2,3)] show ?thesis by simp
qed

theorem recommend_length_witness:
  "square [[1, 4/5, 1/10], [4/5, 1, 1/10], [1/10, 1/10, 1::rat]]
   \<and> recommend [[1, 4/5, 1/10], [4/5, 1, 1/10], [1/10, 1/10, 1::rat]] 0 2 = Inr [(1, 4/5), (2, 1/10)]
   \<and> recommend [[1, 4/5, 1/10], [4/5, 1, 1/10], [1/10, 1/10, 1::rat]] 0 30 = Inr [(1, 4/5), (2, 1/10)]
   \<and> (\<exists>out. recommend [[1, 4/5, 1/10], [4/5, 1, 1/10], [1/10, 1/10, 1::rat]] 0 30 = Inr out
        \<and> int (length out) = min 30 (int (length [[1, 4/5, 1/10], [4/5, 1, 1/10], [1/10, 1/10, 1::rat]]) - 1))"
proof -
  let ?S = "[[1, 4/5, 1/10], [4/5, 1, 1/10], [1/10, 1/10, 1::rat]]"
  have sq: "square ?S" by (simp add: square_def)
  have r2: "recommend ?S 0 2 = Inr [(1, 4/5), (2, 1/10)]"
    by (simp add: recommend_def similarity_score_def getitem_def sorted_similar_movies_def
        sorted_reverse_def py_slice_def slice_bound_def)
  have r30: "recommend ?S 0 30 = Inr [(1, 4/5), (2, 1/10)]"
    by (simp add: recommend_def similarity_score_def getitem_def sorted_similar_movies_def
        sorted_reverse_def py_slice_def slice_bound_def)
  have "\<exists>out. recommend ?S 0 30 = Inr out \<and> int (length out) = min 30 (int (length ?S) - 1)"
    by (rule recommend_length [OF sq]) simp_all
  with sq r2 r30 show ?thesis by blast
qed

lemma index_of_the_movie_first:
  "k < length ms \<Longrightarrow> title (ms ! k) = t \<Longrightarrow> (\<forall>j<k. title (ms ! j) \<noteq> t) \<Longrightarrow>
   index_of_the_movie ms t = Inr (index (ms ! k))"
proof (induction ms arbitrary: k)
  case Nil
  then show ?case by simp
next
  case (Cons m ms)
  show ?case
  proof (cases k)
    case 0
    with Cons.prems show ?thesis by (simp add: index_of_the_movie_def values0_def)
  next
    case (Suc k')
    with Cons.prems have m: "title m \<noteq> t" by auto
    have "index_of_the_movie ms t = Inr (index (ms ! k'))"
      using Cons.prems Suc by (intro Cons.IH) auto
    with m Suc show ?thesis by (simp add: index_of_the_movie_def)
  qed
qed

lemma index_of_the_movie_none:
  "(\<forall>m\<in>set ms. title m \<noteq> t) \<Longrightarrow> index_of_the_movie ms t = Inl IndexError"
proof -
  assume "\<forall>m\<in>set ms. title m \<noteq> t"
  then have "filter (\<lambda>m. title m = t) ms = []" by (simp add: filter_empty_conv)
  then show ?thesis by (simp add: index_of_the_movie_def values0_def)
qed

text \<open>
  Claim C8: the title lookup returns the \<^verbatim>\<open>index\<close> column of the first row, in load order,
  whose title equals the given one character by character, and raises (\<open>IndexError\<close>, from
  \<^verbatim>\<open>.values[0]\<close> on an empty selection) when no row has that title.
\<close>

theorem index_of_the_movie_first_match:
  "(\<forall>k<length movies_data.
      title (movies_data ! k) = t \<and> (\<forall>j<k. title (movies_data ! j) \<noteq> t) \<longrightarrow>
      index_of_the_movie movies_data t = Inr (index (movies_data ! k)))
   \<and> ((\<forall>m\<in>set movies_data. title m \<noteq> t) \<longrightarrow> index_of_the_movie movies_data t = Inl IndexError)"
  using index_of_the_movie_first index_of_the_movie_none by blast

theorem index_of_the_movie_first_match_witness:
  "index_of_the_movie catalogue ''Avatar'' = Inr 1
   \<and> index_of_the_movie catalogue ''avatar'' = Inl IndexError"
proof -
  have a: "(1::nat) < length catalogue \<and> title (catalogue ! 1) = ''Avatar''
      \<and> (\<forall>j<1. title (catalogue ! j) \<noteq> ''Avatar'')"
    by (simp add: catalogue_def)
  have b: "\<forall>m\<in>set catalogue. title m \<noteq> ''avatar''"
    by (simp add: catalogue_def)
  have i: "index (catalogue ! 1) = 1" by (simp add: catalogue_def)
  from index_of_the_movie_first_match [of catalogue "''Avatar''"] a i
  have "index_of_the_movie catalogue ''Avatar'' = Inr 1" by metis
  moreover from index_of_the_movie_first_match [of catalogue "''avatar''"] b
  have "index_of_the_movie catalogue ''avatar'' = Inl IndexError" by blast
  ultimately show ?thesis by simp
qed

lemma filter_upt_eq: "filter (\<lambda>k. k = a) [0..<n] = (if a < n then [a] else [])"
  by (induction n) auto

lemma aligned_filter:
  assumes "map label ms = map int [0..<n]" "0 \<le> j" "j < int n"
  shows "filter (\<lambda>m. label m = j) ms = [ms ! nat j]"
proof -
  have len: "length ms = n" using assms(1) by (metis length_map length_upt minus_nat.diff_0)
  have lab: "label (ms ! k) = int k" if "k < n" for k
  proof -
    have "map label ms ! k = map int [0..<n] ! k" using assms(1) by simp
    with that len show ?thesis by simp
  qed
  have "ms = map (\<lambda>k. ms ! k) [0..<n]" using map_nth [of ms] len by simp
  then have "filter (\<lambda>m. label m = j) ms = filter (\<lambda>m. label m = j) (map (\<lambda>k. ms ! k) [0..<n])"
    by simp
  also have "\<dots> = map (\<lambda>k. ms ! k) (filter (\<lambda>k. label (ms ! k) = j) [0..<n])"
    by (simp add: filter_map comp_def)
  also have "filter (\<lambda>k. label (ms ! k) = j) [0..<n] = filter (\<lambda>k. k = nat j) [0..<n]"
    using lab assms(2) by (intro filter_cong) auto
  also have "\<dots> = [nat j]" using assms by (simp add: filter_upt_eq)
  finally show ?thesis by simp
qed

lemma recommend_indices:
  assumes "0 \<le> i" "i < int (length similarity)" "recommend similarity i n = Inr out" "p \<in> set out"
  shows "0 \<le> fst p \<and> fst p < int (length (similarity ! nat i))"
proof -
  from recommend_valid [OF assms(1,2), of n] assms(3)
  have "out = py_slice (sorted_reverse snd (enumerate_from 0 (similarity ! nat i))) 1 (n + 1)"
    by simp
  with assms(4) set_py_slice [of "sorted_reverse snd (enumerate_from 0 (similarity ! nat i))" 1 "n + 1"]
  have "p \<in> set (sorted_reverse snd (enumerate_from 0 (similarity ! nat i)))"
    by auto
  then have "p \<in> set (enumerate_from 0 (similarity ! nat i))" by simp
  from fst_enumerate_from_bounds [OF this] show ?thesis by simp
qed

text \<open>
  Claim C10: every index in the output lies in \<open>[0, N)\<close>, and the catalogue lookups of
  lines 335 and 339 by such an index find their row.
\<close>

theorem recommend_indices_in_catalogue:
  assumes "square similarity" "aligned movies_data similarity"
    and "0 \<le> i" "i < int (length similarity)"
    and "recommend similarity i n = Inr out" "(j, s) \<in> set out"
  shows "0 \<le> j \<and> j < int (length similarity)
     \<and> title_of movies_data j = Inr (title (movies_data ! nat j))
     \<and> movie_info movies_data j = Inr (movies_data ! nat j)"
proof -
  from recommend_indices [OF assms(3,4,5,6)] square_row [OF assms(1), of "nat i"] assms(3,4)
  have j: "0 \<le> j" "j < int (length similarity)" by auto
  from assms(2) have "map label movies_data = map int [0..<length similarity]"
    by (simp add: aligned_def)
  from aligned_filter [OF this j]
  have "filter (\<lambda>m. label m = j) movies_data = [movies_data ! nat j]" .
  with j show ?thesis by (simp add: title_of_def movie_info_def values0_def)
qed

theorem recommend_indices_in_catalogue_witness:
  "square [[1, 4/5, 1/10], [4/5, 1, 1/10], [1/10, 1/10, 1::rat]]
   \<and> aligned catalogue [[1, 4/5, 1/10], [4/5, 1, 1/10], [1/10, 1/10, 1::rat]]
   \<and> recommend [[1, 4/5, 1/10], [4/5, 1, 1/10], [1/10, 1/10, 1::rat]] 0 2 = Inr [(1, 4/5), (2, 1/10)]
   \<and> title_of catalogue 2 = Inr (title (catalogue ! nat 2))
   \<and> movie_info catalogue 2 = Inr (catalogue ! nat 2)"
proof -
  let ?S = "[[1, 4/5, 1/10], [4/5, 1, 1/10], [1/10, 1/10, 1::rat]]"
  have sq: "square ?S" by (simp add: square_def)
  have al: "aligned catalogue ?S" by (simp add: aligned_def catalogue_def upt_rec)
  have r: "recommend ?S 0 2 = Inr [(1, 4/5), (2, 1/10)]"
    by (simp add: recommend_def similarity_score_def getitem_def sorted_similar_movies_def
        sorted_reverse_def py_slice_def slice_bound_def)
  have "0 \<le> (2::int) \<and> 2 < int (length ?S)
     \<and> title_of catalogue 2 = Inr (title (catalogue ! nat 2))
     \<and> movie_info catalogue 2 = Inr (catalogue ! nat 2)"
    by (rule recommend_indices_in_catalogue [OF sq al _ _ r, of 2 "1/10"]) simp_all
  with sq al r show ?thesis by blast
qed

lemma provider_failed_response_json:
  "provider_failed r \<Longrightarrow> \<exists>e. response_json r = Inl e"
  by (cases r) (auto simp: response_json_def split: option.splits)

lemma poster_try_failed: "provider_failed r \<Longrightarrow> \<exists>e. poster_try fmt r = Inl e"
  using provider_failed_response_json [of r] by (auto simp: poster_try_def)

lemma details_try_failed: "provider_failed r \<Longrightarrow> \<exists>e. details_try r = Inl e"
  using provider_failed_response_json [of r] by (auto simp: details_try_def)

lemma poster_try_no_results:
  "no_results r \<Longrightarrow> poster_try fmt r = Inl KeyError \<or> poster_try fmt r = Inr no_poster_url"
  by (cases r rule: no_results.cases)
    (auto simp: poster_try_def response_json_def split: option.splits)

lemma details_try_no_results:
  "no_results r \<Longrightarrow> details_try r = Inl KeyError \<or> details_try r = Inr None"
  by (cases r rule: no_results.cases)
    (auto simp: details_try_def response_json_def split: option.splits)

lemma poster_try_range:
  "poster_try fmt r = Inr url \<Longrightarrow> url = no_poster_url \<or> (\<exists>p. url = TMDB_IMAGE_BASE_URL @ p)"
  by (auto simp: poster_try_def split: sum.splits if_splits)

text \<open>
  The two lookups on their own absorb every failure. Without an API key they return the
  placeholder and \<open>None\<close>; on a provider failure (no answer, HTTP error, body not JSON),
  on a missing or empty \<^verbatim>\<open>results\<close> entry, and on any exception raised inside the
  \<^verbatim>\<open>try\<close> block, the poster lookup returns a placeholder URL and the details lookup
  returns \<open>None\<close>. The poster lookup always returns one of the three placeholders or an
  image URL.
\<close>

theorem provider_failures_absorbed:
  "get_movie_poster fmt requests_get [] t y = no_api_key_url
   \<and> get_movie_details requests_get [] t = None
   \<and> (k \<noteq> [] \<and> provider_failed (poster_reply requests_get k t y) \<longrightarrow>
        get_movie_poster fmt requests_get k t y = error_loading_url)
   \<and> (k \<noteq> [] \<and> provider_failed (details_reply requests_get k t) \<longrightarrow>
        get_movie_details requests_get k t = None)
   \<and> (k \<noteq> [] \<and> no_results (poster_reply requests_get k t y) \<longrightarrow>
        get_movie_poster fmt requests_get k t y \<in> {error_loading_url, no_poster_url})
   \<and> (k \<noteq> [] \<and> no_results (details_reply requests_get k t) \<longrightarrow>
        get_movie_details requests_get k t = None)
   \<and> (k \<noteq> [] \<and> (\<exists>e. poster_try fmt (poster_reply requests_get k t y) = Inl e) \<longrightarrow>
        get_movie_poster fmt requests_get k t y = error_loading_url)
   \<and> (k \<noteq> [] \<and> (\<exists>e. details_try (details_reply requests_get k t) = Inl e) \<longrightarrow>
        get_movie_details requests_get k t = None)
   \<and> (get_movie_poster fmt requests_get k t y \<in> {no_api_key_url, error_loading_url, no_poster_url}
        \<or> (\<exists>p. get_movie_poster fmt requests_get k t y = TMDB_IMAGE_BASE_URL @ p))"
proof (intro conjI impI)
  show "get_movie_poster fmt requests_get [] t y = no_api_key_url"
    by (simp add: get_movie_poster_def)
  show "get_movie_details requests_get [] t = None"
    by (simp add: get_movie_details_def)
  show "get_movie_poster fmt requests_get k t y = error_loading_url"
    if "k \<noteq> [] \<and> provider_failed (poster_reply requests_get k t y)"
    using that poster_try_failed [of "poster_reply requests_get k t y" fmt]
    by (auto simp: get_movie_poster_def)
  show "get_movie_details requests_get k t = None"
    if "k \<noteq> [] \<and> provider_failed (details_reply requests_get k t)"
    using that details_try_failed [of "details_reply requests_get k t"]
    by (auto simp: get_movie_details_def)
  show "get_movie_poster fmt requests_get k t y \<in> {error_loading_url, no_poster_url}"
    if "k \<noteq> [] \<and> no_results (poster_reply requests_get k t y)"
    using that poster_try_no_results [of "poster_reply requests_get k t y" fmt]
    by (auto simp: get_movie_poster_def)
  show "get_movie_details requests_get k t = None"
    if "k \<noteq> [] \<and> no_results (details_reply requests_get k t)"
    using that details_try_no_results [of "details_reply requests_get k t"]
    by (auto simp: get_movie_details_def)
  show "get_movie_poster fmt requests_get k t y = error_loading_url"
    if "k \<noteq> [] \<and> (\<exists>e. poster_try fmt (poster_reply requests_get k t y) = Inl e)"
    using that by (auto simp: get_movie_poster_def)
  show "get_movie_details requests_get k t = None"
    if "k \<noteq> [] \<and> (\<exists>e. details_try (details_reply requests_get k t) = Inl e)"
    using that by (auto simp: get_movie_details_def)
  show "get_movie_poster fmt requests_get k t y \<in> {no_api_key_url, error_loading_url, no_poster_url}
        \<or> (\<exists>p. get_movie_poster fmt requests_get k t y = TMDB_IMAGE_BASE_URL @ p)"
    using poster_try_range [of fmt "poster_reply requests_get k t y"]
    by (auto simp: get_movie_poster_def split: sum.splits)
qed

theorem provider_failures_absorbed_witness:
  "get_movie_poster (\<lambda>v. []) (\<lambda>url params. NoReply) ''key'' ''Avatar'' None = error_loading_url
   \<and> get_movie_details (\<lambda>url params. NoReply) ''key'' ''Avatar'' = None
   \<and> get_movie_poster (\<lambda>v. []) (\<lambda>url params. Reply 500 None) ''key'' ''Avatar'' None = error_loading_url
   \<and> get_movie_details (\<lambda>url params. Reply 200 None) ''key'' ''Avatar'' = None
   \<and> get_movie_details (\<lambda>url params. Reply 200 (Some (JObj [(''results'', JArr [])])))
        ''key'' ''Avatar'' = None"
proof -
  have k: "''key'' \<noteq> []" by simp
  have 1: "provider_failed (poster_reply (\<lambda>url params. NoReply) ''key'' ''Avatar'' None)"
    by (simp add: poster_reply_def)
  have 2: "provider_failed (details_reply (\<lambda>url params. NoReply) ''key'' ''Avatar'')"
    by (simp add: details_reply_def)
  have 3: "provider_failed (poster_reply (\<lambda>url params. Reply 500 None) ''key'' ''Avatar'' None)"
    by (simp add: poster_reply_def)
  have 4: "provider_failed (details_reply (\<lambda>url params. Reply 200 None) ''key'' ''Avatar'')"
    by (simp add: details_reply_def)
  have 5: "no_results (details_reply (\<lambda>url params. Reply 200 (Some (JObj [(''results'', JArr [])])))
      ''key'' ''Avatar'')"
    by (simp add: details_reply_def)
  note A = provider_failures_absorbed [of "\<lambda>v. []" "\<lambda>url params. NoReply" "''Avatar''" None "''key''"]
  note B = provider_failures_absorbed [of "\<lambda>v. []" "\<lambda>url params. Reply 500 None" "''Avatar''" None "''key''"]
  note C = provider_failures_absorbed [of "\<lambda>v. []" "\<lambda>url params. Reply 200 None" "''Avatar''" None "''key''"]
  note D = provider_failures_absorbed [of "\<lambda>v. []"
        "\<lambda>url params. Reply 200 (Some (JObj [(''results'', JArr [])]))" "''Avatar''" None "''key''"]
  have a: "get_movie_poster (\<lambda>v. []) (\<lambda>url params. NoReply) ''key'' ''Avatar'' None = error_loading_url"
    using A k 1 by (elim conjE) (erule mp, simp)
  have b: "get_movie_details (\<lambda>url params. NoReply) ''key'' ''Avatar'' = None"
    using A k 2 by (elim conjE) simp
  have c: "get_movie_poster (\<lambda>v. []) (\<lambda>url params. Reply 500 None) ''key'' ''Avatar'' None = error_loading_url"
    using B k 3 by (elim conjE) simp
  have d: "get_movie_details (\<lambda>url params. Reply 200 None) ''key'' ''Avatar'' = None"
    using C k 4 by (elim conjE) simp
  have e: "get_movie_details (\<lambda>url params. Reply 200 (Some (JObj [(''results'', JArr [])])))
        ''key'' ''Avatar'' = None"
    using D k 5 by (elim conjE) simp
  from a b c d e show ?thesis by simp
qed

text \<open>
  Claim C9 (provider failures and missing data never abort a recommendation request).
  When the provider answers with a first result whose \<^verbatim>\<open>overview\<close> is \<^verbatim>\<open>null\<close>,
  \<^verbatim>\<open>movie.get('overview', 'No overview available')\<close> returns the \<^verbatim>\<open>null\<close> and not the
  default, the details lookup returns a record, and line 390 slices \<^verbatim>\<open>None\<close>: the
  \<^verbatim>\<open>TypeError\<close> is raised outside any \<^verbatim>\<open>try\<close> and ends the request. With no details
  at all (\<open>None\<close>) the card is written without them.
\<close>

theorem null_overview_aborts_request:
  "get_movie_details
     (\<lambda>url params. Reply 200 (Some (JObj [(''results'',
        JArr [JObj [(''title'', JStr ''Avatar''), (''overview'', JNull)]])])))
     ''key'' ''Avatar''
     = Some \<lparr>rating = JStr ''N/A'', overview = JNull,
             release_date = JStr ''Unknown'', popularity = JNum 0\<rparr>
   \<and> more_info (\<lambda>v. [])
       (get_movie_details
          (\<lambda>url params. Reply 200 (Some (JObj [(''results'',
             JArr [JObj [(''title'', JStr ''Avatar''), (''overview'', JNull)]])])))
          ''key'' ''Avatar'')
     = Inl TypeError
   \<and> more_info (\<lambda>v. []) None = Inr []"
  by (simp add: get_movie_details_def details_reply_def details_try_def response_json_def
      more_info_def)

section \<open>Properties of the fuzzy title match\<close>

subsection \<open>\<open>b2j\<close> lists the positions of each element\<close>

definition indices :: "'a list \<Rightarrow> 'a \<Rightarrow> nat list" where
  "indices b c = filter (\<lambda>j. b ! j = c) [0..<length b]"

lemma indices_snoc:
  "indices (xs @ [x]) c = indices xs c @ (if x = c then [length xs] else [])"
proof -
  have "filter (\<lambda>j. (xs @ [x]) ! j = c) [0..<length xs] = filter (\<lambda>j. xs ! j = c) [0..<length xs]"
    by (intro filter_cong) (auto simp: nth_append)
  then show ?thesis by (simp add: indices_def)
qed

lemma indices_empty_iff: "indices b c = [] \<longleftrightarrow> c \<notin> set b"
  by (auto simp: indices_def filter_empty_conv in_set_conv_nth)

lemma b2j_all_snoc:
  "b2j_all (xs @ [x]) =
     (b2j_all xs)(x \<mapsto> (case b2j_all xs x of None \<Rightarrow> [] | Some is \<Rightarrow> is) @ [length xs])"
  by (simp add: b2j_all_def enumerate_append_eq)

lemma b2j_all_eq: "b2j_all b c = (if c \<in> set b then Some (indices b c) else None)"
proof (induction b rule: rev_induct)
  case Nil
  show ?case by (simp add: b2j_all_def)
next
  case (snoc x xs)
  show ?case
  proof (cases "x = c")
    case True
    show ?thesis
    proof (cases "c \<in> set xs")
      case True
      with snoc \<open>x = c\<close> show ?thesis by (simp add: b2j_all_snoc indices_snoc)
    next
      case False
      then have "indices xs c = []" by (simp add: indices_empty_iff)
      with snoc \<open>x = c\<close> False show ?thesis by (simp add: b2j_all_snoc indices_snoc)
    qed
  next
    case False
    with snoc show ?thesis by (simp add: b2j_all_snoc indices_snoc)
  qed
qed

definition popular :: "'a list \<Rightarrow> 'a \<Rightarrow> bool" where
  "popular b c = (200 \<le> length b \<and> length b div 100 + 1 < length (indices b c))"

lemma chain_b_eq:
  "chain_b b c = (if c \<in> set b \<and> \<not> popular b c then Some (indices b c) else None)"
  by (simp add: chain_b_def Let_def b2j_all_eq popular_def)

lemma sound_chain_b: "sound_b2j b (chain_b b)"
  by (auto simp: sound_b2j_def chain_b_eq indices_def split: if_splits)

subsection \<open>The blocks as a recursion over regions\<close>

text \<open>
  The loop over the stack of regions computes what the recursion \<open>blocks_rec\<close> computes,
  up to the order of the blocks; the number of matched elements is the same.
\<close>

function blocks_rec :: "'a list \<Rightarrow> 'a list \<Rightarrow> ('a \<rightharpoonup> nat list) \<Rightarrow> region \<Rightarrow> best list" where
  "blocks_rec a b b2j (alo, ahi, blo, bhi) =
     (case find_longest_match a b b2j alo ahi blo bhi of
        (i, j, k) \<Rightarrow>
          if k \<noteq> 0 then
            (i, j, k) #
              (if i + k < ahi \<and> j + k < bhi then blocks_rec a b b2j (i + k, ahi, j + k, bhi) else []) @
              (if alo < i \<and> blo < j then blocks_rec a b b2j (alo, i, blo, j) else [])
          else [])"
  by pat_completeness auto
termination
proof (relation "measure (\<lambda>(a, b, b2j, r). region_size r)", goal_cases)
  case 1
  show ?case by simp
next
  case (2 a b b2j alo ahi blo bhi x1 x2 x1a x2a)
  then have "find_longest_match a b b2j alo ahi blo bhi = (x1, x1a, x2a)" by simp
  from find_longest_match_bounds [OF this \<open>x2a \<noteq> 0\<close>] \<open>x2a \<noteq> 0\<close>
  show ?case by (auto simp: region_size_def)
next
  case (3 a b b2j alo ahi blo bhi x1 x2 x1a x2a)
  then have "find_longest_match a b b2j alo ahi blo bhi = (x1, x1a, x2a)" by simp
  from find_longest_match_bounds [OF this \<open>x2a \<noteq> 0\<close>] \<open>x2a \<noteq> 0\<close> 3
  show ?case by (auto simp: region_size_def)
qed

declare blocks_rec.simps [simp del]

definition sizes :: "best list \<Rightarrow> nat" where
  "sizes blocks = sum_list (map (\<lambda>triple. snd (snd triple)) blocks)"

lemma sizes_simps [simp]:
  "sizes [] = 0" "sizes ((i, j, k) # xs) = k + sizes xs" "sizes (xs @ ys) = sizes xs + sizes ys"
  by (simp_all add: sizes_def)

lemma match_loop_sizes:
  "sizes (match_loop a b b2j queue acc)
     = sizes acc + sum_list (map (\<lambda>r. sizes (blocks_rec a b b2j r)) queue)"
proof (induction a b b2j queue acc rule: match_loop.induct)
  case (1 a b b2j matching_blocks)
  show ?case by (simp add: match_loop.simps)
next
  case (2 a b b2j alo ahi blo bhi queue matching_blocks)
  obtain i j k where f: "find_longest_match a b b2j alo ahi blo bhi = (i, j, k)"
    by (cases "find_longest_match a b b2j alo ahi blo bhi") auto
  show ?case
  proof (cases "k = 0")
    case True
    have ml: "match_loop a b b2j ((alo, ahi, blo, bhi) # queue) matching_blocks
        = match_loop a b b2j queue matching_blocks"
      by (subst match_loop.simps) (simp add: f True)
    have br: "blocks_rec a b b2j (alo, ahi, blo, bhi) = []"
      by (subst blocks_rec.simps) (simp add: f True)
    have "\<not> k \<noteq> 0" using True by simp
    from "2.IH"(2) [OF f [symmetric] refl this] show ?thesis
      by (simp add: ml br)
  next
    case False
    let ?R = "if i + k < ahi \<and> j + k < bhi then [(i + k, ahi, j + k, bhi)] else []"
    let ?L = "if alo < i \<and> blo < j then [(alo, i, blo, j)] else []"
    have ml: "match_loop a b b2j ((alo, ahi, blo, bhi) # queue) matching_blocks
        = match_loop a b b2j (?R @ ?L @ queue) (matching_blocks @ [(i, j, k)])"
      by (subst match_loop.simps) (simp add: f False)
    have br: "blocks_rec a b b2j (alo, ahi, blo, bhi)
        = (i, j, k) # concat (map (blocks_rec a b b2j) ?R) @ concat (map (blocks_rec a b b2j) ?L)"
      by (subst blocks_rec.simps) (auto simp: f False)
    have ih: "sizes (match_loop a b b2j (?R @ ?L @ queue) (matching_blocks @ [(i, j, k)]))
        = sizes (matching_blocks @ [(i, j, k)])
          + sum_list (map (\<lambda>r. sizes (blocks_rec a b b2j r)) (?R @ ?L @ queue))"
      by (rule "2.IH"(1) [OF f [symmetric] refl False])
    show ?thesis by (simp add: ml ih br)
  qed
qed

lemma sizes_sort: "sizes (sort xs) = sizes xs"
proof -
  have "mset (map (\<lambda>triple. snd (snd triple)) (sort xs)) = mset (map (\<lambda>triple. snd (snd triple)) xs)"
    by simp
  then show ?thesis unfolding sizes_def by (metis sum_mset_sum_list)
qed

lemma collapse_loop_sizes:
  "sizes (collapse_loop xs (i1, j1, k1) acc) = sizes xs + k1 + sizes acc"
  by (induction xs "(i1, j1, k1)" acc arbitrary: i1 j1 k1 rule: collapse_loop.induct) auto

lemma get_matching_blocks_sizes:
  "sizes (get_matching_blocks a b b2j) = sizes (blocks_rec a b b2j (0, length a, 0, length b))"
  by (simp add: get_matching_blocks_def Let_def collapse_loop_sizes sizes_sort match_loop_sizes)

definition seg :: "'a list \<Rightarrow> nat \<Rightarrow> nat \<Rightarrow> 'a list" where
  "seg xs lo hi = take (hi - lo) (drop lo xs)"

lemma seg_split: "lo \<le> mid \<Longrightarrow> mid \<le> hi \<Longrightarrow> seg xs lo hi = seg xs lo mid @ seg xs mid hi"
proof -
  assume a: "lo \<le> mid" "mid \<le> hi"
  then have "hi - lo = (mid - lo) + (hi - mid)" by simp
  then have "take (hi - lo) (drop lo xs)
      = take (mid - lo) (drop lo xs) @ take (hi - mid) (drop (mid - lo) (drop lo xs))"
    by (simp only: take_add)
  with a show ?thesis by (simp add: seg_def)
qed

lemma length_seg: "hi \<le> length xs \<Longrightarrow> length (seg xs lo hi) = hi - lo"
  by (auto simp: seg_def)

lemma seg_block_eq:
  assumes "\<forall>t<k. a ! (i + t) = b ! (j + t)" "i + k \<le> length a" "j + k \<le> length b"
  shows "seg a i (i + k) = seg b j (j + k)"
  using assms by (intro nth_equalityI) (auto simp: seg_def)

lemma inter_mset_superadd:
  "size (A1 \<inter># B1) + size (A2 \<inter># B2) \<le> size ((A1 + A2) \<inter># (B1 + B2))"
proof -
  have "A1 \<inter># B1 + A2 \<inter># B2 \<subseteq># (A1 + A2) \<inter># (B1 + B2)"
    by (intro subset_mset.inf_greatest subset_mset.add_mono) simp_all
  from size_mset_mono [OF this] show ?thesis by simp
qed

definition cap :: "'a list \<Rightarrow> 'a list \<Rightarrow> region \<Rightarrow> nat" where
  "cap a b r = (case r of (alo, ahi, blo, bhi) \<Rightarrow>
      size (mset (seg a alo ahi) \<inter># mset (seg b blo bhi)))"

lemma cap_le:
  "ahi \<le> length a \<Longrightarrow> bhi \<le> length b \<Longrightarrow>
   cap a b (alo, ahi, blo, bhi) \<le> ahi - alo \<and> cap a b (alo, ahi, blo, bhi) \<le> bhi - blo"
proof -
  assume a: "ahi \<le> length a" "bhi \<le> length b"
  have "size (mset (seg a alo ahi) \<inter># mset (seg b blo bhi)) \<le> size (mset (seg a alo ahi))"
    by (intro size_mset_mono) simp
  moreover have "size (mset (seg a alo ahi) \<inter># mset (seg b blo bhi)) \<le> size (mset (seg b blo bhi))"
    by (intro size_mset_mono) simp
  ultimately show ?thesis using a by (simp add: cap_def length_seg)
qed

subsection \<open>Matched elements of a region\<close>

text \<open>
  The blocks of a region match no more elements than the two segments share as multisets,
  and when they match both segments completely the segments are equal.
\<close>

definition region_ok :: "'a list \<Rightarrow> 'a list \<Rightarrow> region \<Rightarrow> bool" where
  "region_ok a b r = (case r of (alo, ahi, blo, bhi) \<Rightarrow>
      alo \<le> ahi \<and> ahi \<le> length a \<and> blo \<le> bhi \<and> bhi \<le> length b)"

definition region_full :: "'a list \<Rightarrow> 'a list \<Rightarrow> region \<Rightarrow> nat \<Rightarrow> bool" where
  "region_full a b r m = (case r of (alo, ahi, blo, bhi) \<Rightarrow> m = ahi - alo \<and> m = bhi - blo)"

definition region_eq :: "'a list \<Rightarrow> 'a list \<Rightarrow> region \<Rightarrow> bool" where
  "region_eq a b r = (case r of (alo, ahi, blo, bhi) \<Rightarrow> seg a alo ahi = seg b blo bhi)"

lemma seg_empty [simp]: "seg xs lo lo = []"
  by (simp add: seg_def)

lemma blocks_rec_cap:
  assumes snd: "sound_b2j b b2j"
  shows "region_ok a b r \<Longrightarrow>
     sizes (blocks_rec a b b2j r) \<le> cap a b r
     \<and> (region_full a b r (sizes (blocks_rec a b b2j r)) \<longrightarrow> region_eq a b r)"
  using snd
proof (induction a b b2j r rule: blocks_rec.induct)
  case (1 a b b2j alo ahi blo bhi)
  from "1.prems"(1) have reg: "alo \<le> ahi" "ahi \<le> length a" "blo \<le> bhi" "bhi \<le> length b"
    by (simp_all add: region_ok_def)
  obtain i j k where f: "find_longest_match a b b2j alo ahi blo bhi = (i, j, k)"
    by (cases "find_longest_match a b b2j alo ahi blo bhi") auto
  have "block_ok a b alo ahi blo bhi True (i, j, k)"
    using find_longest_match_ok [of True b b2j a alo ahi blo bhi] "1.prems"(2) f by simp
  with reg have bnd: "alo \<le> i" "i + k \<le> ahi" "blo \<le> j" "j + k \<le> bhi"
    and val: "\<forall>t<k. a ! (i + t) = b ! (j + t)"
    by (simp_all add: block_ok_def max_def)
  show ?case
  proof (cases "k = 0")
    case True
    have br: "blocks_rec a b b2j (alo, ahi, blo, bhi) = []"
      by (subst blocks_rec.simps) (simp add: f True)
    show ?thesis using reg by (simp add: br region_full_def region_eq_def)
  next
    case False
    define L where "L = (if alo < i \<and> blo < j then blocks_rec a b b2j (alo, i, blo, j) else [])"
    define R where "R = (if i + k < ahi \<and> j + k < bhi
                          then blocks_rec a b b2j (i + k, ahi, j + k, bhi) else [])"
    have br: "blocks_rec a b b2j (alo, ahi, blo, bhi) = (i, j, k) # R @ L"
      unfolding L_def R_def by (subst blocks_rec.simps) (auto simp: f False)
    have okL: "region_ok a b (alo, i, blo, j)" and okR: "region_ok a b (i + k, ahi, j + k, bhi)"
      using reg bnd by (simp_all add: region_ok_def)
    have l: "sizes L \<le> cap a b (alo, i, blo, j)
        \<and> (region_full a b (alo, i, blo, j) (sizes L) \<longrightarrow> region_eq a b (alo, i, blo, j))"
    proof (cases "alo < i \<and> blo < j")
      case True
      from "1.IH"(2) [OF f [symmetric] refl False True okL "1.prems"(2)] True
      show ?thesis by (simp add: L_def)
    next
      case False
      then have "sizes L = 0" by (auto simp: L_def)
      then show ?thesis using bnd by (auto simp: region_full_def region_eq_def)
    qed
    have r: "sizes R \<le> cap a b (i + k, ahi, j + k, bhi)
        \<and> (region_full a b (i + k, ahi, j + k, bhi) (sizes R)
             \<longrightarrow> region_eq a b (i + k, ahi, j + k, bhi))"
    proof (cases "i + k < ahi \<and> j + k < bhi")
      case True
      from "1.IH"(1) [OF f [symmetric] refl False True okR "1.prems"(2)] True
      show ?thesis by (simp add: R_def)
    next
      case False
      then have "sizes R = 0" by (auto simp: R_def)
      then show ?thesis using bnd by (auto simp: region_full_def region_eq_def)
    qed
    have sa: "seg a alo ahi = seg a alo i @ seg a i (i + k) @ seg a (i + k) ahi"
      using bnd seg_split [of alo i ahi a] seg_split [of i "i + k" ahi a] by simp
    have sb: "seg b blo bhi = seg b blo j @ seg b j (j + k) @ seg b (j + k) bhi"
      using bnd seg_split [of blo j bhi b] seg_split [of j "j + k" bhi b] by simp
    have mid: "seg a i (i + k) = seg b j (j + k)"
      using val bnd reg by (intro seg_block_eq) auto
    have lenmid: "length (seg b j (j + k)) = k"
      using bnd reg by (simp add: length_seg)
    have capsum: "cap a b (alo, i, blo, j) + k + cap a b (i + k, ahi, j + k, bhi)
        \<le> cap a b (alo, ahi, blo, bhi)"
    proof -
      let ?Al = "mset (seg a alo i)" and ?Bl = "mset (seg b blo j)"
      let ?K = "mset (seg b j (j + k))"
      let ?Ar = "mset (seg a (i + k) ahi)" and ?Br = "mset (seg b (j + k) bhi)"
      have "size (?Al \<inter># ?Bl) + size (?K \<inter># ?K) \<le> size ((?Al + ?K) \<inter># (?Bl + ?K))"
        by (rule inter_mset_superadd)
      moreover have "size ((?Al + ?K) \<inter># (?Bl + ?K)) + size (?Ar \<inter># ?Br)
          \<le> size (((?Al + ?K) + ?Ar) \<inter># ((?Bl + ?K) + ?Br))"
        by (rule inter_mset_superadd)
      moreover have "size (?K \<inter># ?K) = k" using lenmid by simp
      moreover have "mset (seg a alo ahi) = (?Al + ?K) + ?Ar" by (simp add: sa mid)
      moreover have "mset (seg b blo bhi) = (?Bl + ?K) + ?Br" by (simp add: sb)
      ultimately show ?thesis by (simp add: cap_def)
    qed
    have sz: "sizes (blocks_rec a b b2j (alo, ahi, blo, bhi)) = k + sizes R + sizes L"
      by (simp add: br)
    have le: "sizes (blocks_rec a b b2j (alo, ahi, blo, bhi)) \<le> cap a b (alo, ahi, blo, bhi)"
      using l r capsum sz by linarith
    have full: "region_eq a b (alo, ahi, blo, bhi)"
      if "region_full a b (alo, ahi, blo, bhi) (sizes (blocks_rec a b b2j (alo, ahi, blo, bhi)))"
    proof -
      from that sz have e: "k + sizes R + sizes L = ahi - alo" "k + sizes R + sizes L = bhi - blo"
        by (simp_all add: region_full_def)
      have cl: "cap a b (alo, i, blo, j) \<le> i - alo \<and> cap a b (alo, i, blo, j) \<le> j - blo"
        using bnd reg by (intro cap_le) auto
      have cr: "cap a b (i + k, ahi, j + k, bhi) \<le> ahi - (i + k)
          \<and> cap a b (i + k, ahi, j + k, bhi) \<le> bhi - (j + k)"
        using reg by (intro cap_le) auto
      have "sizes L = i - alo" "sizes L = j - blo" "sizes R = ahi - (i + k)" "sizes R = bhi - (j + k)"
        using e cl cr l r bnd by linarith+
      then have "region_eq a b (alo, i, blo, j)" "region_eq a b (i + k, ahi, j + k, bhi)"
        using l r by (simp_all add: region_full_def)
      then show ?thesis by (simp add: region_eq_def sa sb mid)
    qed
    from le full show ?thesis by blast
  qed
qed

subsection \<open>\<open>quick_ratio\<close> and \<open>real_quick_ratio\<close> are upper bounds of \<open>ratio\<close>\<close>

lemma count_notin [simp]: "c \<notin> set xs \<Longrightarrow> count (mset xs) c = 0"
  by (simp add: count_eq_zero_iff)

lemma fullbcount_snoc:
  "fullbcount (xs @ [x]) =
     (fullbcount xs)(x \<mapsto> (case fullbcount xs x of None \<Rightarrow> 0 | Some c \<Rightarrow> c) + 1)"
  by (simp add: fullbcount_def)

lemma fullbcount_eq:
  "fullbcount b c = (if c \<in> set b then Some (count (mset b) c) else None)"
proof (induction b rule: rev_induct)
  case Nil
  show ?case by (simp add: fullbcount_def)
next
  case (snoc x xs)
  then show ?case by (auto simp: fullbcount_snoc count_eq_zero_iff)
qed

lemma inter_add_mset_left:
  "add_mset e P \<inter># B = (if count P e < count B e then add_mset e (P \<inter># B) else P \<inter># B)"
  by (rule multiset_eqI) auto

definition quick_state :: "'a list \<Rightarrow> 'a list \<Rightarrow> ('a \<rightharpoonup> int) \<times> nat" where
  "quick_state b p =
     (\<lambda>c. if c \<in> set p then Some (int (count (mset b) c) - int (count (mset p) c)) else None,
      size (mset p \<inter># mset b))"

lemma quick_step_state:
  "quick_step (fullbcount b) e (quick_state b p) = quick_state b (p @ [e])"
proof -
  define numb where "numb = (case fst (quick_state b p) e of
      Some v \<Rightarrow> v
    | None \<Rightarrow> (case fullbcount b e of None \<Rightarrow> 0 | Some c \<Rightarrow> int c))"
  have numb: "numb = int (count (mset b) e) - int (count (mset p) e)"
    by (auto simp: numb_def quick_state_def fullbcount_eq count_eq_zero_iff)
  have st: "quick_step (fullbcount b) e (quick_state b p)
      = ((fst (quick_state b p))(e \<mapsto> numb - 1),
         if 0 < numb then snd (quick_state b p) + 1 else snd (quick_state b p))"
    by (simp add: quick_step_def quick_state_def numb_def Let_def)
  have a: "(fst (quick_state b p))(e \<mapsto> numb - 1) = fst (quick_state b (p @ [e]))"
    by (rule ext) (auto simp: quick_state_def numb)
  have m: "(if 0 < numb then snd (quick_state b p) + 1 else snd (quick_state b p))
      = snd (quick_state b (p @ [e]))"
    by (auto simp: quick_state_def numb inter_add_mset_left)
  show ?thesis unfolding st a m by simp
qed

lemma quick_fold: "fold (quick_step (fullbcount b)) p (Map.empty, 0) = quick_state b p"
proof (induction p rule: rev_induct)
  case Nil
  show ?case by (simp add: quick_state_def)
next
  case (snoc e p)
  then show ?case by (simp add: quick_step_state)
qed

lemma quick_ratio_eq:
  "quick_ratio a b = calculate_ratio (size (mset a \<inter># mset b)) (length a + length b)"
  by (simp add: quick_ratio_def quick_fold quick_state_def)

lemma calculate_ratio_mono: "m \<le> m' \<Longrightarrow> calculate_ratio m len \<le> calculate_ratio m' len"
  by (simp add: calculate_ratio_def divide_right_mono)

lemma seg_whole [simp]: "seg xs 0 (length xs) = xs"
  by (simp add: seg_def)

lemma ratio_eq:
  "ratio a b b2j
     = calculate_ratio (sizes (blocks_rec a b b2j (0, length a, 0, length b))) (length a + length b)"
  using get_matching_blocks_sizes [of a b b2j] by (simp add: ratio_def sizes_def)

lemma matches_le_inter:
  assumes "sound_b2j b b2j"
  shows "sizes (blocks_rec a b b2j (0, length a, 0, length b)) \<le> size (mset a \<inter># mset b)"
  using blocks_rec_cap [OF assms, of a "(0, length a, 0, length b)"]
  by (simp add: region_ok_def cap_def)

lemma matches_full_eq:
  assumes "sound_b2j b b2j"
    and "sizes (blocks_rec a b b2j (0, length a, 0, length b)) = length a"
    and "length a = length b"
  shows "a = b"
proof -
  have "region_full a b (0, length a, 0, length b)
      (sizes (blocks_rec a b b2j (0, length a, 0, length b)))"
    using assms(2,3) by (simp add: region_full_def)
  with blocks_rec_cap [OF assms(1), of a "(0, length a, 0, length b)"]
  have "region_eq a b (0, length a, 0, length b)"
    by (simp add: region_ok_def)
  then have "seg a 0 (length a) = seg b 0 (length b)" by (simp add: region_eq_def)
  then show ?thesis by (simp only: seg_whole)
qed

lemma ratio_le_quick_ratio: "sound_b2j b b2j \<Longrightarrow> ratio a b b2j \<le> quick_ratio a b"
  unfolding ratio_eq quick_ratio_eq by (intro calculate_ratio_mono matches_le_inter)

lemma inter_le_min: "size (mset a \<inter># mset b) \<le> min (length a) (length b)"
proof -
  have "size (mset a \<inter># mset b) \<le> size (mset a)" by (intro size_mset_mono) simp
  moreover have "size (mset a \<inter># mset b) \<le> size (mset b)" by (intro size_mset_mono) simp
  ultimately show ?thesis by simp
qed

lemma quick_ratio_le_real_quick_ratio: "quick_ratio a b \<le> real_quick_ratio a b"
  unfolding quick_ratio_eq real_quick_ratio_def by (intro calculate_ratio_mono inter_le_min)

lemma real_quick_ratio_le_1: "real_quick_ratio a b \<le> 1"
proof (cases "length a + length b = 0")
  case True
  then show ?thesis by (simp add: real_quick_ratio_def calculate_ratio_def)
next
  case False
  have "2 * min (length a) (length b) \<le> length a + length b" by simp
  then have "(of_nat (2 * min (length a) (length b)) :: rat) \<le> of_nat (length a + length b)"
    by (simp only: of_nat_le_iff)
  then have "2 * (of_nat (min (length a) (length b)) :: rat) \<le> of_nat (length a + length b)"
    by simp
  moreover have "0 < length a + length b" using False by (simp only: neq0_conv)
  then have "(0::rat) < of_nat (length a + length b)" by (simp only: of_nat_0_less_iff)
  ultimately have "2 * (of_nat (min (length a) (length b)) :: rat) / of_nat (length a + length b) \<le> 1"
    by (simp only: divide_le_eq_1_pos)
  with False show ?thesis by (simp add: real_quick_ratio_def calculate_ratio_def)
qed

lemma ratio_le_1: "sound_b2j b b2j \<Longrightarrow> ratio a b b2j \<le> 1"
  using ratio_le_quick_ratio [of b b2j a] quick_ratio_le_real_quick_ratio [of a b]
    real_quick_ratio_le_1 [of a b] by linarith

lemma ratio_1_eq:
  assumes "sound_b2j b b2j" "ratio a b b2j = 1"
  shows "a = b"
proof (cases "length a + length b = 0")
  case True
  then show ?thesis by simp
next
  case False
  let ?m = "sizes (blocks_rec a b b2j (0, length a, 0, length b))"
  from assms(2) False have "2 * (of_nat ?m :: rat) = of_nat (length a + length b)"
    by (simp add: ratio_eq calculate_ratio_def)
  then have "(of_nat (2 * ?m) :: rat) = of_nat (length a + length b)" by simp
  then have e: "2 * ?m = length a + length b" by (simp only: of_nat_eq_iff)
  from matches_le_inter [OF assms(1), of a] inter_le_min [of a b]
  have "?m \<le> length a" "?m \<le> length b" by simp_all
  with e have "?m = length a" "length a = length b" by linarith+
  with matches_full_eq [OF assms(1)] show ?thesis by simp
qed

subsection \<open>Order and totality of \<open>get_close_matches\<close>\<close>

text \<open>
  The ratio that \<^verbatim>\<open>get_close_matches\<close> computes for a candidate \<open>x\<close>: the candidate is
  the first sequence, the query the second.
\<close>

definition match_ratio :: "'a list \<Rightarrow> 'a list \<Rightarrow> rat" where
  "match_ratio word x = ratio x word (chain_b word)"

lemma close_results_eq:
  "close_results word possibilities cutoff
     = map (\<lambda>x. (match_ratio word x, x)) (filter (\<lambda>x. cutoff \<le> match_ratio word x) possibilities)"
proof -
  have "cutoff \<le> real_quick_ratio x word \<and> cutoff \<le> quick_ratio x word
      \<and> cutoff \<le> ratio x word (chain_b word) \<longleftrightarrow> cutoff \<le> ratio x word (chain_b word)" for x
    using ratio_le_quick_ratio [OF sound_chain_b, of x word]
      quick_ratio_le_real_quick_ratio [of x word] by auto
  then show ?thesis
    by (induction possibilities) (simp_all add: close_results_def Let_def match_ratio_def)
qed

lemma take_min_length: "take (min m (length ys)) ys = take m ys"
  by (cases "m \<le> length ys") (simp_all add: min_def)

lemma nlargest_eq: "0 \<le> n \<Longrightarrow> nlargest n xs = take (nat n) (sorted_reverse (\<lambda>x. x) xs)"
  using take_min_length [of "nat n" "sorted_reverse (\<lambda>x. x) xs"]
  by (simp add: nlargest_def py_slice_def slice_bound_def)

lemma get_close_matches_eq:
  assumes "0 < n" "0 \<le> cutoff" "cutoff \<le> 1"
  shows "get_close_matches word possibilities n cutoff
     = Inr (map snd (take (nat n) (sorted_reverse (\<lambda>x. x)
         (map (\<lambda>x. (match_ratio word x, x))
            (filter (\<lambda>x. cutoff \<le> match_ratio word x) possibilities)))))"
  using assms by (simp add: get_close_matches_def nlargest_eq close_results_eq)

lemma get_close_matches_Inr:
  "get_close_matches word possibilities n cutoff = Inr out \<Longrightarrow> 0 < n \<and> 0 \<le> cutoff \<and> cutoff \<le> 1"
  by (auto simp: get_close_matches_def split: if_splits)

text \<open>
  Claim C2, as stated, fails: \<^verbatim>\<open>abd\<close> and \<^verbatim>\<open>abe\<close> match the query \<^verbatim>\<open>abc\<close> with the same
  ratio \<open>2/3\<close>, and \<^verbatim>\<open>abd\<close> comes first among the candidates, yet \<^verbatim>\<open>abe\<close> is ranked first
  (and is the only title returned when \<open>n = 1\<close>).
\<close>

theorem get_close_matches_ties_counterexample:
  "get_close_matches ''abc'' [''abd'', ''abe''] 1 (3/5) = Inr [''abe'']
   \<and> get_close_matches ''abc'' [''abd'', ''abe''] 5 (3/10) = Inr [''abe'', ''abd'']
   \<and> match_ratio ''abc'' ''abd'' = 2/3 \<and> match_ratio ''abc'' ''abe'' = 2/3"
  unfolding match_ratio_def by code_simp

text \<open>
  Claim C2, amended: the titles returned are the greatest candidates that clear the
  cut-off, at most \<open>n\<close> of them, in the order that compares the ratio first and the title
  string next. Sorted in descending order, the candidates that clear the cut-off are the
  titles returned followed by the ones left out; so the titles returned are sorted by
  descending ratio, and of two candidates with equal ratio the one that is greater as a
  string is ranked first, whatever their order among the candidates.
\<close>

theorem get_close_matches_order:
  assumes "get_close_matches word possibilities n cutoff = Inr out"
  shows "sorted_wrt (\<lambda>x y. match_ratio word y < match_ratio word x
            \<or> (match_ratio word y = match_ratio word x \<and> y \<le> x)) out
     \<and> (\<forall>x\<in>set out. x \<in> set possibilities \<and> cutoff \<le> match_ratio word x)
     \<and> length out = min (nat n) (length (filter (\<lambda>x. cutoff \<le> match_ratio word x) possibilities))
     \<and> (\<exists>rest. mset (out @ rest) = mset (filter (\<lambda>x. cutoff \<le> match_ratio word x) possibilities)
           \<and> sorted_wrt (\<lambda>x y. match_ratio word y < match_ratio word x
                \<or> (match_ratio word y = match_ratio word x \<and> y \<le> x)) (out @ rest))"
proof -
  let ?ok = "filter (\<lambda>x. cutoff \<le> match_ratio word x) possibilities"
  let ?rs = "map (\<lambda>x. (match_ratio word x, x)) ?ok"
  let ?ys = "sorted_reverse (\<lambda>x. x) ?rs"
  let ?R = "\<lambda>x y. match_ratio word y < match_ratio word x
            \<or> (match_ratio word y = match_ratio word x \<and> y \<le> x)"
  from get_close_matches_Inr [OF assms] have "0 < n" "0 \<le> cutoff" "cutoff \<le> 1" by simp_all
  from get_close_matches_eq [OF this, of word possibilities] assms
  have out: "out = map snd (take (nat n) ?ys)" by simp
  define rest where "rest = map snd (drop (nat n) ?ys)"
  have app: "out @ rest = map snd ?ys"
    unfolding out rest_def by (simp only: map_append [symmetric] append_take_drop_id)
  have "sorted_wrt (\<lambda>p q. q \<le> p) ?ys" by (rule sorted_reverse_descending)
  then have "sorted_wrt (\<lambda>p q. ?R (snd p) (snd q)) ?ys"
  proof (rule sorted_wrt_mono_rel [rotated])
    fix p q assume "p \<in> set ?ys" "q \<in> set ?ys" "q \<le> p"
    then have "fst p = match_ratio word (snd p)" "fst q = match_ratio word (snd q)" by auto
    with \<open>q \<le> p\<close> show "?R (snd p) (snd q)"
      by (cases p; cases q) auto
  qed
  then have all: "sorted_wrt ?R (out @ rest)"
    unfolding app by (simp only: sorted_wrt_map)
  then have srt: "sorted_wrt ?R out" by (simp add: sorted_wrt_append)
  have e1: "map snd ?rs = ?ok" by (simp add: comp_def)
  have m0: "mset ?ys = mset ?rs" by (rule mset_sorted_reverse)
  have "mset (map snd ?ys) = image_mset snd (mset ?ys)" by (rule mset_map)
  also have "\<dots> = image_mset snd (mset ?rs)" by (simp only: m0)
  also have "\<dots> = mset (map snd ?rs)" by (rule mset_map [symmetric])
  also have "\<dots> = mset ?ok" by (simp only: e1)
  finally have ms: "mset (out @ rest) = mset ?ok" by (simp only: app)
  have mem: "\<forall>x\<in>set out. x \<in> set possibilities \<and> cutoff \<le> match_ratio word x"
  proof
    fix x assume "x \<in> set out"
    then have "x \<in># mset (out @ rest)" by simp
    then have "x \<in> set ?ok" unfolding ms by simp
    then show "x \<in> set possibilities \<and> cutoff \<le> match_ratio word x" by simp
  qed
  have len: "length out = min (nat n) (length ?ok)" by (simp add: out)
  from srt mem len ms all show ?thesis by blast
qed

theorem get_close_matches_order_witness:
  "get_close_matches ''abc'' [''abd'', ''abe''] 1 (3/5) = Inr [''abe'']
   \<and> get_close_matches ''abc'' [''abd'', ''abe''] 5 (3/10) = Inr [''abe'', ''abd'']
   \<and> (\<exists>rest. mset ([''abe''] @ rest)
           = mset (filter (\<lambda>x. 3/5 \<le> match_ratio ''abc'' x) [''abd'', ''abe''])
         \<and> sorted_wrt (\<lambda>x y. match_ratio ''abc'' y < match_ratio ''abc'' x
              \<or> (match_ratio ''abc'' y = match_ratio ''abc'' x \<and> y \<le> x)) ([''abe''] @ rest))
   \<and> sorted_wrt (\<lambda>x y. match_ratio ''abc'' y < match_ratio ''abc'' x
              \<or> (match_ratio ''abc'' y = match_ratio ''abc'' x \<and> y \<le> x)) [''abe'', ''abd'']"
proof -
  have r1: "get_close_matches ''abc'' [''abd'', ''abe''] 1 (3/5) = Inr [''abe'']"
    by code_simp
  have r5: "get_close_matches ''abc'' [''abd'', ''abe''] 5 (3/10) = Inr [''abe'', ''abd'']"
    by code_simp
  from get_close_matches_order [OF r1] get_close_matches_order [OF r5] r1 r5
  show ?thesis by blast
qed

text \<open>
  Claim C6: with \<open>n > 0\<close> and a cut-off in \<open>[0, 1]\<close>, as at both call sites,
  \<^verbatim>\<open>get_close_matches\<close> returns a list; the list is empty exactly when no candidate
  reaches the cut-off, and with \<open>n = 1\<close> it holds exactly one title when some candidate
  reaches it.
\<close>

theorem get_close_matches_never_fails:
  assumes "0 < n" "0 \<le> cutoff" "cutoff \<le> 1"
  shows "\<exists>out. get_close_matches word possibilities n cutoff = Inr out
     \<and> (out = [] \<longleftrightarrow> (\<forall>x\<in>set possibilities. match_ratio word x < cutoff))
     \<and> (n = 1 \<and> (\<exists>x\<in>set possibilities. cutoff \<le> match_ratio word x) \<longrightarrow> length out = 1)"
proof -
  let ?ok = "filter (\<lambda>x. cutoff \<le> match_ratio word x) possibilities"
  let ?rs = "map (\<lambda>x. (match_ratio word x, x)) ?ok"
  let ?out = "map snd (take (nat n) (sorted_reverse (\<lambda>x. x) ?rs))"
  have eq: "get_close_matches word possibilities n cutoff = Inr ?out"
    by (rule get_close_matches_eq [OF assms])
  have len: "length ?out = min (nat n) (length ?ok)" by simp
  have pos: "0 < nat n" using assms(1) by simp
  have e: "?out = [] \<longleftrightarrow> ?ok = []"
  proof -
    have "?out = [] \<longleftrightarrow> length ?out = 0" by (simp only: length_0_conv)
    also have "\<dots> \<longleftrightarrow> min (nat n) (length ?ok) = 0" by (simp only: len)
    also have "\<dots> \<longleftrightarrow> length ?ok = 0" using pos by arith
    finally show ?thesis by simp
  qed
  have empty: "?out = [] \<longleftrightarrow> (\<forall>x\<in>set possibilities. match_ratio word x < cutoff)"
    unfolding e by (auto simp: filter_empty_conv not_le)
  have one: "length ?out = 1" if "n = 1" "\<exists>x\<in>set possibilities. cutoff \<le> match_ratio word x"
  proof -
    from that(2) have "?ok \<noteq> []" by (auto simp: filter_empty_conv)
    then have "0 < length ?ok" by simp
    moreover have "nat n = 1" using that(1) by simp
    ultimately have "min (nat n) (length ?ok) = 1" by arith
    then show ?thesis by (simp only: len)
  qed
  from eq empty one show ?thesis by blast
qed

theorem get_close_matches_never_fails_witness:
  "find_close_match ''iron man'' catalogue = Inr [''Iron Man'']
   \<and> find_close_match ''Xyzzyplorp'' catalogue = Inr []
   \<and> suggestions ''Xyzzyplorp'' catalogue = Inr []
   \<and> (\<exists>out. find_close_match ''iron man'' catalogue = Inr out \<and> length out = 1)"
proof -
  have a: "find_close_match ''iron man'' catalogue = Inr [''Iron Man'']"
    by code_simp
  have b: "find_close_match ''Xyzzyplorp'' catalogue = Inr []"
    by code_simp
  have c: "suggestions ''Xyzzyplorp'' catalogue = Inr []"
    by code_simp
  have t: "''Iron Man'' \<in> set (list_of_all_titles catalogue)"
    by (simp add: list_of_all_titles_def catalogue_def)
  have m: "(3/5::rat) \<le> match_ratio ''iron man'' ''Iron Man''"
    unfolding match_ratio_def by code_simp
  have "\<exists>out. get_close_matches ''iron man'' (list_of_all_titles catalogue) 1 (3/5) = Inr out
     \<and> (out = [] \<longleftrightarrow> (\<forall>x\<in>set (list_of_all_titles catalogue). match_ratio ''iron man'' x < 3/5))
     \<and> ((1::int) = 1 \<and> (\<exists>x\<in>set (list_of_all_titles catalogue). 3/5 \<le> match_ratio ''iron man'' x)
          \<longrightarrow> length out = 1)"
    by (rule get_close_matches_never_fails) simp_all
  with t m have "\<exists>out. find_close_match ''iron man'' catalogue = Inr out \<and> length out = 1"
    unfolding find_close_match_def by blast
  with a b c show ?thesis by blast
qed

subsection \<open>A title matched against itself\<close>

text \<open>
  When both sequences are the same list \<open>x\<close>, the longest junk-free block that the rows
  find starts at the same position in both: \<open>run x m\<close> is the length of the longest run of
  elements kept in \<open>b2j\<close> that ends just before position \<open>m\<close>, and no block found off
  the diagonal is longer than a run already seen on it. The extension loops then stretch
  the block over the whole list.
\<close>

definition nonpop :: "'a list \<Rightarrow> 'a \<Rightarrow> bool" where
  "nonpop x c = (c \<in> set x \<and> \<not> popular x c)"

lemma chain_b_nonpop: "chain_b x c = (if nonpop x c then Some (indices x c) else None)"
  by (simp add: chain_b_eq nonpop_def)

fun run :: "'a list \<Rightarrow> nat \<Rightarrow> nat" where
  "run x 0 = 0"
| "run x (Suc m) = (if nonpop x (x ! m) then run x m + 1 else 0)"

lemma run_le: "run x m \<le> m"
  by (induction m) auto

lemma inner_loop_entries:
  "(\<forall>j\<in>set js. j < bhi) \<Longrightarrow>
   fst (inner_loop j2len 0 bhi i js (new, best))
     = (\<lambda>j. if j \<in> set js then Some (j2lenget j2len j + 1) else new j)"
proof (induction js arbitrary: new best)
  case Nil
  show ?case by simp
next
  case (Cons j js)
  obtain bi bj bs where b: "best = (bi, bj, bs)" by (cases best) auto
  from Cons.prems have lt: "j < bhi" and rest: "\<forall>j\<in>set js. j < bhi" by simp_all
  have "fst (inner_loop j2len 0 bhi i (j # js) (new, best))
      = fst (inner_loop j2len 0 bhi i js (new(j \<mapsto> j2lenget j2len j + 1),
          if bs < j2lenget j2len j + 1
          then (i + 1 - (j2lenget j2len j + 1), j + 1 - (j2lenget j2len j + 1), j2lenget j2len j + 1)
          else (bi, bj, bs)))"
    using lt by (simp add: b Let_def)
  also have "\<dots> = (\<lambda>j'. if j' \<in> set js then Some (j2lenget j2len j' + 1)
      else (new(j \<mapsto> j2lenget j2len j + 1)) j')"
    by (rule Cons.IH [OF rest])
  also have "\<dots> = (\<lambda>j'. if j' \<in> set (j # js) then Some (j2lenget j2len j' + 1) else new j')"
    by (rule ext) auto
  finally show ?case .
qed

lemma inner_loop_append:
  "(\<forall>j\<in>set js1. j < bhi) \<Longrightarrow>
   inner_loop j2len 0 bhi i (js1 @ js2) st
     = inner_loop j2len 0 bhi i js2 (inner_loop j2len 0 bhi i js1 st)"
proof (induction js1 arbitrary: st)
  case Nil
  show ?case by simp
next
  case (Cons j js1)
  obtain new bi bj bs where st: "st = (new, bi, bj, bs)" by (cases st) auto
  from Cons.prems have lt: "j < bhi" and rest: "\<forall>j\<in>set js1. j < bhi" by simp_all
  show ?case using lt Cons.IH [OF rest] by (simp add: st Let_def)
qed

lemma inner_loop_keep:
  "(\<forall>j\<in>set js. j < bhi \<and> j2lenget j2len j + 1 \<le> bs) \<Longrightarrow>
   snd (inner_loop j2len 0 bhi i js (new, bi, bj, bs)) = (bi, bj, bs)"
proof (induction js arbitrary: new)
  case Nil
  show ?case by simp
next
  case (Cons j js)
  from Cons.prems have lt: "j < bhi" "\<not> bs < j2lenget j2len j + 1"
    and rest: "\<forall>j\<in>set js. j < bhi \<and> j2lenget j2len j + 1 \<le> bs" by auto
  show ?case using lt Cons.IH [OF rest] by (simp add: Let_def)
qed

lemma indices_split:
  assumes "m < length x"
  shows "indices x (x ! m)
     = filter (\<lambda>j. x ! j = x ! m) [0..<m] @ [m] @ filter (\<lambda>j. x ! j = x ! m) [Suc m..<length x]"
proof -
  have "[0..<length x] = [0..<m] @ [m] @ [Suc m..<length x]"
    using assms by (metis append_Cons append_Nil less_imp_le_nat upt_add_eq_append le0
        le_add_diff_inverse upt_conv_Cons)
  then have "indices x (x ! m) = filter (\<lambda>j. x ! j = x ! m) ([0..<m] @ [m] @ [Suc m..<length x])"
    by (simp only: indices_def)
  then show ?thesis by simp
qed

definition aligned_state :: "'a list \<Rightarrow> nat \<Rightarrow> (nat \<rightharpoonup> nat) \<times> best \<Rightarrow> bool" where
  "aligned_state x m st =
     (case st of (j2len, bi, bj, bs) \<Rightarrow>
        (\<forall>j. j2lenget j2len j \<le> run x j) \<and> (\<forall>j. j2lenget j2len j \<le> run x m)
        \<and> j2lenget j2len m = run x m
        \<and> bi = bj \<and> bi + bs \<le> m \<and> (\<forall>m'\<le>m. run x m' \<le> bs))"

lemma aligned_row:
  assumes inv: "aligned_state x m st" and m: "m < length x"
  shows "aligned_state x (Suc m) (row_step x (chain_b x) 0 (length x) m st)"
proof -
  obtain j2len bi bj bs where st: "st = (j2len, bi, bj, bs)" by (cases st) auto
  from inv have I1a: "\<And>j. j2lenget j2len j \<le> run x j" and I1b: "\<And>j. j2lenget j2len j \<le> run x m"
    and I2: "j2lenget j2len m = run x m" and al: "bi = bj" and sum: "bi + bs \<le> m"
    and I3: "\<And>m'. m' \<le> m \<Longrightarrow> run x m' \<le> bs"
    by (simp_all add: aligned_state_def st)
  show ?thesis
  proof (cases "nonpop x (x ! m)")
    case False
    then have "row_step x (chain_b x) 0 (length x) m st = (Map.empty, bi, bj, bs)"
      by (simp add: row_step_def chain_b_nonpop st)
    moreover have "run x (Suc m) = 0" using False by simp
    ultimately show ?thesis
      using al sum I3 by (auto simp: aligned_state_def j2lenget_def le_Suc_eq)
  next
    case True
    let ?n = "length x"
    let ?c = "x ! m"
    let ?js1 = "filter (\<lambda>j. x ! j = ?c) [0..<m]"
    let ?js2 = "filter (\<lambda>j. x ! j = ?c) [Suc m..<?n]"
    let ?k = "run x m + 1"
    have runS: "run x (Suc m) = ?k" using True by simp
    have js: "indices x ?c = ?js1 @ [m] @ ?js2" by (rule indices_split [OF m])
    have row: "row_step x (chain_b x) 0 ?n m st
        = inner_loop j2len 0 ?n m (?js1 @ [m] @ ?js2) (Map.empty, bi, bj, bs)"
      using True by (simp add: row_step_def chain_b_nonpop st js)
    have lt1: "\<forall>j\<in>set ?js1. j < ?n" using m by auto
    have ltm: "\<forall>j\<in>set [m]. j < ?n" using m by simp
    have lt2: "\<forall>j\<in>set ?js2. j < ?n" by auto
    have ltall: "\<forall>j\<in>set (?js1 @ [m] @ ?js2). j < ?n" using m by auto
    \<comment> \<open>the entries of the new row\<close>
    define J where "J = set (?js1 @ [m] @ ?js2)"
    have ent: "fst (row_step x (chain_b x) 0 ?n m st)
        = (\<lambda>j. if j \<in> J then Some (j2lenget j2len j + 1) else None)"
      unfolding row J_def by (rule inner_loop_entries [OF ltall])
    have inset: "j \<in> J \<Longrightarrow> nonpop x (x ! j)" for j
      using True by (auto simp: J_def)
    have mJ: "m \<in> J" by (simp add: J_def)
    have get: "j2lenget (fst (row_step x (chain_b x) 0 ?n m st)) (Suc j)
        = (if j \<in> J then j2lenget j2len j + 1 else 0)" for j
      unfolding ent by (simp add: j2lenget_def)
    have get0: "j2lenget (fst (row_step x (chain_b x) 0 ?n m st)) 0 = 0"
      by (simp add: j2lenget_def)
    have N1a: "j2lenget (fst (row_step x (chain_b x) 0 ?n m st)) j \<le> run x j" for j
    proof (cases j)
      case 0
      then show ?thesis using get0 by simp
    next
      case (Suc j')
      show ?thesis
      proof (cases "j' \<in> J")
        case True
        with inset [OF True] I1a [of j'] show ?thesis unfolding Suc get by simp
      next
        case False
        then show ?thesis unfolding Suc get by simp
      qed
    qed
    have N1b: "j2lenget (fst (row_step x (chain_b x) 0 ?n m st)) j \<le> run x (Suc m)" for j
    proof (cases j)
      case 0
      then show ?thesis using get0 by simp
    next
      case (Suc j')
      show ?thesis using I1b [of j'] unfolding Suc get runS by simp
    qed
    have N2: "j2lenget (fst (row_step x (chain_b x) 0 ?n m st)) (Suc m) = run x (Suc m)"
      unfolding get runS using I2 mJ by simp
    \<comment> \<open>the best block after the row\<close>
    have keep1: "snd (inner_loop j2len 0 ?n m ?js1 (Map.empty, bi, bj, bs)) = (bi, bj, bs)"
    proof (rule inner_loop_keep, intro ballI conjI)
      fix j assume j: "j \<in> set ?js1"
      then show "j < ?n" using m by auto
      from j have "j < m" "nonpop x (x ! j)" using True by auto
      then have "run x (Suc j) = run x j + 1" "Suc j \<le> m" by simp_all
      with I1a [of j] I3 [of "Suc j"] show "j2lenget j2len j + 1 \<le> bs" by simp
    qed
    define new1 where "new1 = fst (inner_loop j2len 0 ?n m ?js1 (Map.empty, bi, bj, bs))"
    have s1: "inner_loop j2len 0 ?n m ?js1 (Map.empty, bi, bj, bs) = (new1, bi, bj, bs)"
      using keep1 by (simp add: new1_def prod_eq_iff)
    define best2 where "best2 = (if bs < ?k then (m + 1 - ?k, m + 1 - ?k, ?k) else (bi, bj, bs))"
    have s2: "inner_loop j2len 0 ?n m [m] (new1, bi, bj, bs) = (new1(m \<mapsto> ?k), best2)"
      using m I2 by (simp add: Let_def best2_def)
    obtain bi2 bs2 where b2: "best2 = (bi2, bi2, bs2)" and sum2: "bi2 + bs2 \<le> Suc m"
      and ge2: "?k \<le> bs2" and ge2': "bs \<le> bs2"
    proof (cases "bs < ?k")
      case True
      show ?thesis
        by (rule that [of "m + 1 - ?k" ?k]) (use True run_le [of x m] in \<open>simp_all add: best2_def\<close>)
    next
      case False
      show ?thesis
        by (rule that [of bi bs]) (use False al sum in \<open>simp_all add: best2_def\<close>)
    qed
    have keep2: "snd (inner_loop j2len 0 ?n m ?js2 (new1(m \<mapsto> ?k), bi2, bi2, bs2)) = (bi2, bi2, bs2)"
    proof (rule inner_loop_keep, intro ballI conjI)
      fix j assume j: "j \<in> set ?js2"
      then show "j < ?n" by auto
      from I1b [of j] ge2 show "j2lenget j2len j + 1 \<le> bs2" by simp
    qed
    have "row_step x (chain_b x) 0 ?n m st
        = inner_loop j2len 0 ?n m ?js2 (inner_loop j2len 0 ?n m [m]
            (inner_loop j2len 0 ?n m ?js1 (Map.empty, bi, bj, bs)))"
      unfolding row
      by (simp only: inner_loop_append [OF lt1] inner_loop_append [OF ltm])
    then have best: "snd (row_step x (chain_b x) 0 ?n m st) = (bi2, bi2, bs2)"
      using keep2 by (simp only: s1 s2 b2)
    have N3: "run x m' \<le> bs2" if "m' \<le> Suc m" for m'
    proof (cases "m' = Suc m")
      case True
      with ge2 runS show ?thesis by simp
    next
      case False
      with that have "m' \<le> m" by simp
      from I3 [OF this] ge2' show ?thesis by simp
    qed
    obtain new' where res: "row_step x (chain_b x) 0 ?n m st = (new', bi2, bi2, bs2)"
      using best by (cases "row_step x (chain_b x) 0 ?n m st") auto
    have fstres: "fst (row_step x (chain_b x) 0 ?n m st) = new'" by (simp add: res)
    show ?thesis
      unfolding res aligned_state_def prod.case
      using N1a N1b N2 N3 sum2 unfolding fstres by blast
  qed
qed

lemma aligned_rows:
  "m \<le> length x \<Longrightarrow>
   aligned_state x m (fold (row_step x (chain_b x) 0 (length x)) [0..<m] (Map.empty, 0, 0, 0))"
proof (induction m)
  case 0
  show ?case by (simp add: aligned_state_def j2lenget_def)
next
  case (Suc m)
  then have "aligned_state x m (fold (row_step x (chain_b x) 0 (length x)) [0..<m] (Map.empty, 0, 0, 0))"
    and "m < length x" by simp_all
  from aligned_row [OF this] show ?case by simp
qed

lemma longest_junk_free_aligned:
  "\<exists>i k. longest_junk_free x (chain_b x) 0 (length x) 0 (length x) = (i, i, k) \<and> i + k \<le> length x"
proof -
  let ?st = "fold (row_step x (chain_b x) 0 (length x)) [0..<length x] (Map.empty, 0, 0, 0)"
  have "aligned_state x (length x) ?st" by (rule aligned_rows) simp
  then show ?thesis
    by (cases ?st) (auto simp: aligned_state_def longest_junk_free_def)
qed

lemma extend_left_aligned: "extend_left x x (\<lambda>elt. True) 0 0 (i, i, k) = (0, 0, k + i)"
proof (induction i arbitrary: k)
  case 0
  show ?case by (subst extend_left.simps) simp
next
  case (Suc i)
  have "extend_left x x (\<lambda>elt. True) 0 0 (Suc i, Suc i, k) = extend_left x x (\<lambda>elt. True) 0 0 (i, i, k + 1)"
    by (subst extend_left.simps) simp
  with Suc [of "k + 1"] show ?case by simp
qed

lemma extend_right_aligned:
  "k \<le> length x \<Longrightarrow> extend_right x x (\<lambda>elt. True) (length x) (length x) (0, 0, k) = (0, 0, length x)"
proof (induction "length x - k" arbitrary: k)
  case 0
  then have "k = length x" by simp
  then show ?case by (subst extend_right.simps) simp
next
  case (Suc d)
  then have lt: "k < length x" and d: "d = length x - (k + 1)" by simp_all
  have "extend_right x x (\<lambda>elt. True) (length x) (length x) (0, 0, k)
      = extend_right x x (\<lambda>elt. True) (length x) (length x) (0, 0, k + 1)"
    using lt by (subst extend_right.simps) simp
  with Suc.hyps(1) [OF d] lt show ?case by simp
qed

lemma extend_left_never: "extend_left a b (\<lambda>elt. False) alo blo blk = blk"
  by (cases blk) (simp add: extend_left.simps)

lemma extend_right_never: "extend_right a b (\<lambda>elt. False) ahi bhi blk = blk"
  by (cases blk) (simp add: extend_right.simps)

lemma find_longest_match_self:
  "find_longest_match x x (chain_b x) 0 (length x) 0 (length x) = (0, 0, length x)"
proof -
  obtain i k where l: "longest_junk_free x (chain_b x) 0 (length x) 0 (length x) = (i, i, k)"
    and le: "i + k \<le> length x"
    using longest_junk_free_aligned [of x] by blast
  show ?thesis
    unfolding find_longest_match_def isbjunk_def not_False_eq_True l extend_left_aligned
      extend_left_never extend_right_never
    using le by (intro extend_right_aligned) simp
qed

lemma match_ratio_self: "match_ratio x x = 1"
proof (cases "x = []")
  case True
  then show ?thesis by (simp add: match_ratio_def ratio_eq calculate_ratio_def)
next
  case False
  have "blocks_rec x x (chain_b x) (0, length x, 0, length x) = [(0, 0, length x)]"
    using False by (subst blocks_rec.simps) (simp add: find_longest_match_self)
  then show ?thesis using False
    by (simp add: match_ratio_def ratio_eq calculate_ratio_def)
qed

lemma match_ratio_le_1: "match_ratio word x \<le> 1"
  unfolding match_ratio_def by (rule ratio_le_1 [OF sound_chain_b])

lemma match_ratio_1_eq: "match_ratio word x = 1 \<Longrightarrow> x = word"
  unfolding match_ratio_def by (rule ratio_1_eq [OF sound_chain_b])

text \<open>
  Claim C7: a title that is among the candidates matches itself with ratio 1 and is the
  first title returned, for every \<open>n > 0\<close> and every cut-off in \<open>[0, 1]\<close>.
\<close>

theorem exact_title_ranked_first:
  assumes "t \<in> set possibilities" "0 < n" "0 \<le> cutoff" "cutoff \<le> 1"
  shows "match_ratio t t = 1
     \<and> (\<exists>rest. get_close_matches t possibilities n cutoff = Inr (t # rest))"
proof -
  let ?rs = "map (\<lambda>x. (match_ratio t x, x)) (filter (\<lambda>x. cutoff \<le> match_ratio t x) possibilities)"
  let ?ys = "sorted_reverse (\<lambda>x. x) ?rs"
  have self: "match_ratio t t = 1" by (rule match_ratio_self)
  have top: "(1, t) \<in> set ?ys"
    using assms(1,4) self by (auto simp: image_iff)
  then obtain y ys' where ys: "?ys = y # ys'" by (cases ?ys) auto
  have desc: "sorted_wrt (\<lambda>p q. q \<le> p) ?ys" by (rule sorted_reverse_descending)
  have ge: "(1, t) \<le> y"
    using top desc unfolding ys by auto
  have "y \<in> set ?rs" using ys set_sorted_reverse [of "\<lambda>x. x" ?rs] by (metis list.set_intros(1))
  then have fy: "fst y = match_ratio t (snd y)" by auto
  have "fst y \<le> 1" unfolding fy by (rule match_ratio_le_1)
  moreover from ge have "1 \<le> fst y" by (cases y) auto
  ultimately have one: "fst y = 1" by simp
  with fy have "snd y = t" using match_ratio_1_eq [of t "snd y"] by simp
  with one have y: "y = (1, t)" by (cases y) simp
  obtain k where k: "nat n = Suc k" using assms(2) by (cases "nat n") auto
  have "get_close_matches t possibilities n cutoff = Inr (map snd (take (nat n) ?ys))"
    by (rule get_close_matches_eq [OF assms(2,3,4)])
  also have "map snd (take (nat n) ?ys) = t # map snd (take k ys')"
    unfolding ys k y by simp
  finally show ?thesis using self by blast
qed

theorem exact_title_ranked_first_witness:
  "match_ratio ''Avatar'' ''Avatar'' = 1
   \<and> (\<exists>rest. get_close_matches ''Avatar'' [''Avatar 2'', ''Iron Man'', ''Avatar''] 5 (3/10)
        = Inr (''Avatar'' # rest))"
  by (rule exact_title_ranked_first) simp_all

end
